theory Spec2Isabelle
  imports Complex_Main "HOL-Library.Word"
begin

unbundle bit_operations_syntax

section \<open>Common types\<close>

text \<open>
  Go's \<open>error\<close> values that occur in the modelled code. \<open>ErrBadData\<close> is the error
  \<open>fmt.Errorf("TSDDecoder resets with bad data")\<close> of \<open>TSDDecoder.Reset\<close>, \<open>ErrEOF\<close>
  the error of reading past the end of a block, \<open>ErrWrite\<close> a failed write of the
  encoder, \<open>ErrAllocPage\<close> a failed page allocation, \<open>ErrFlush k\<close> the failure of the
  flush of metric \<open>k\<close> and \<open>ErrCommit\<close> a failed commit of the flusher.
\<close>

datatype error = ErrBadData | ErrEOF | ErrWrite | ErrAllocPage | ErrFlush nat | ErrCommit

type_synonym byte = "8 word"
type_synonym uint16 = "16 word"
type_synonym uint64 = "64 word"

section \<open>Bit streams (package pkg/bit)\<close>

text \<open>
  \<open>bits_of_word n w\<close> are the low \<open>n\<close> bits of \<open>w\<close>, most significant first;
  \<open>word_of_bits\<close> reads a word back from bits given most significant first.
\<close>

definition bits_of_word :: "nat \<Rightarrow> 'a::len word \<Rightarrow> bool list" where
  "bits_of_word n w = map (bit w) (rev [0..<n])"

definition word_of_bits :: "bool list \<Rightarrow> 'a::len word" where
  "word_of_bits bs = horner_sum of_bool 2 (rev bs)"

text \<open>
  Modelled from the spec: \<open>bit.Writer\<close> of package \<open>pkg/bit\<close> is not among the sources.
  The writer appends single bits to a byte buffer (the encoder's \<open>bitBuffer\<close>), "bit-packed
  with no padding ... other than final byte-alignment padding at end of stream". Its state
  is the pair of the buffer's bytes and the bits of the byte in process (fewer than 8); a
  byte is filled from its most significant bit. The buffer is a Go \<open>bytes.Buffer\<close>, whose
  writes never return an error, so every operation returns the error \<open>None\<close>.
\<close>

type_synonym bit_writer = "byte list \<times> bool list"

definition WriteBit :: "bit_writer \<Rightarrow> bool \<Rightarrow> bit_writer \<times> error option" where
  "WriteBit w b =
     (let p = snd w @ [b]
      in if length p = 8 then ((fst w @ [word_of_bits p], []), None)
         else ((fst w, p), None))"

fun write_bit_list :: "bit_writer \<Rightarrow> bool list \<Rightarrow> bit_writer \<times> error option" where
  "write_bit_list w [] = (w, None)"
| "write_bit_list w (b # bs) =
     (case WriteBit w b of
        (w', None) \<Rightarrow> write_bit_list w' bs
      | (w', Some e) \<Rightarrow> (w', Some e))"

definition WriteBits :: "bit_writer \<Rightarrow> uint64 \<Rightarrow> nat \<Rightarrow> bit_writer \<times> error option" where
  "WriteBits w v n = write_bit_list w (bits_of_word n v)"

definition Flush :: "bit_writer \<Rightarrow> bit_writer \<times> error option" where
  "Flush w =
     (if snd w = [] then (w, None)
      else ((fst w @ [word_of_bits (snd w @ replicate (8 - length (snd w)) False)], []), None))"

section \<open>XOR value encoder\<close>

text \<open>
  Modelled from the spec: \<open>XOREncoder\<close> (pkg/encoding) is not among the sources. "The first
  value is stored verbatim; each subsequent value is stored as the bitwise XOR against the
  previous value, with the number of leading/trailing zero bits of the XOR result itself
  encoded compactly ... so that slowly-changing series compress to near zero bits per
  sample". The model writes the first value in 64 bits; for a later value it writes the
  control bit 0 when the XOR with the previous value is zero, and otherwise the control bit
  1, the number of leading zero bits and the number of trailing zero bits of the XOR (6
  bits each), and the bits of the XOR between them.
\<close>

record XOREncoder =
  xe_first :: bool
  xe_prevVal :: uint64

definition NewXOREncoder :: XOREncoder where
  "NewXOREncoder = \<lparr>xe_first = True, xe_prevVal = 0\<rparr>"

definition LeadingZeros64 :: "uint64 \<Rightarrow> nat" where
  "LeadingZeros64 d = length (takeWhile Not (bits_of_word 64 d))"

definition TrailingZeros64 :: "uint64 \<Rightarrow> nat" where
  "TrailingZeros64 d = length (takeWhile Not (rev (bits_of_word 64 d)))"

definition delta_code :: "uint64 \<Rightarrow> bool list" where
  "delta_code d =
     (if d = 0 then [False]
      else let l = LeadingZeros64 d; t = TrailingZeros64 d
           in True # bits_of_word 6 (of_nat l :: uint64)
                @ bits_of_word 6 (of_nat t :: uint64)
                @ bits_of_word (64 - l - t) (drop_bit t d))"

definition xor_code :: "bool \<Rightarrow> uint64 \<Rightarrow> uint64 \<Rightarrow> bool list" where
  "xor_code first prev v = (if first then bits_of_word 64 v else delta_code (v XOR prev))"

definition xe_Write ::
  "XOREncoder \<Rightarrow> bit_writer \<Rightarrow> uint64 \<Rightarrow> (XOREncoder \<times> bit_writer) \<times> error option" where
  "xe_Write x w v =
     (case write_bit_list w (xor_code (xe_first x) (xe_prevVal x) v) of
        (w', r) \<Rightarrow> ((\<lparr>xe_first = False, xe_prevVal = v\<rparr>, w'), r))"

section \<open>TSD encoder (pkg/encoding/tsd.go)\<close>

record tsdEncoder =
  e_startTime :: uint16
  e_bitBuffer :: "byte list"
  e_bitWriter :: "bool list"
  e_values :: XOREncoder
  e_count :: uint16
  e_err :: "error option"

definition NewTSDEncoder :: "uint16 \<Rightarrow> tsdEncoder" where
  "NewTSDEncoder startTime =
     \<lparr>e_startTime = startTime, e_bitBuffer = [], e_bitWriter = [],
      e_values = NewXOREncoder, e_count = 0, e_err = None\<rparr>"

text \<open>\<open>tsdEncoder.Reset\<close>: resets the byte buffer, the bit writer and the XOR encoder.\<close>

definition Reset_encoder :: "tsdEncoder \<Rightarrow> tsdEncoder" where
  "Reset_encoder e = e\<lparr>e_bitBuffer := [], e_bitWriter := [], e_values := NewXOREncoder\<rparr>"

definition AppendTime :: "tsdEncoder \<Rightarrow> bool \<Rightarrow> tsdEncoder" where
  "AppendTime e slot =
     (if e_err e \<noteq> None then e
      else case WriteBit (e_bitBuffer e, e_bitWriter e) slot of
             ((buf, pend), r) \<Rightarrow>
               e\<lparr>e_bitBuffer := buf, e_bitWriter := pend, e_err := r,
                 e_count := e_count e + 1\<rparr>)"

definition AppendValue :: "tsdEncoder \<Rightarrow> uint64 \<Rightarrow> tsdEncoder" where
  "AppendValue e v =
     (if e_err e \<noteq> None then e
      else case xe_Write (e_values e) (e_bitBuffer e, e_bitWriter e) v of
             ((x, (buf, pend)), r) \<Rightarrow>
               e\<lparr>e_bitBuffer := buf, e_bitWriter := pend, e_values := x, e_err := r\<rparr>)"

text \<open>
  Modelled from the spec: \<open>stream.BufferWriter.PutUInt16\<close> is not among the sources; the
  header fields are "uint16 little-endian".
\<close>

definition PutUInt16 :: "uint16 \<Rightarrow> byte list" where
  "PutUInt16 v = [ucast v, ucast (drop_bit 8 v)]"

text \<open>
  \<open>Bytes\<close> and \<open>BytesWithoutTime\<close> return Go's pair of a byte slice (\<open>None\<close> is the nil
  slice) and an error (\<open>None\<close> is nil), and the encoder after the flush of its bit writer.
\<close>

definition Bytes :: "tsdEncoder \<Rightarrow> (byte list option \<times> error option) \<times> tsdEncoder" where
  "Bytes e =
     (case e_err e of
        Some er \<Rightarrow> ((None, Some er), e)
      | None \<Rightarrow>
          (case Flush (e_bitBuffer e, e_bitWriter e) of
             ((buf, pend), Some er) \<Rightarrow>
               ((None, Some er), e\<lparr>e_bitBuffer := buf, e_bitWriter := pend\<rparr>)
           | ((buf, pend), None) \<Rightarrow>
               (if e_count e = 0
                then ((None, None), e\<lparr>e_bitBuffer := buf, e_bitWriter := pend\<rparr>)
                else ((Some (PutUInt16 (e_startTime e)
                               @ PutUInt16 (e_startTime e + e_count e - 1) @ buf), None),
                      e\<lparr>e_bitBuffer := buf, e_bitWriter := pend\<rparr>))))"

definition BytesWithoutTime ::
  "tsdEncoder \<Rightarrow> (byte list option \<times> error option) \<times> tsdEncoder" where
  "BytesWithoutTime e =
     (case e_err e of
        Some er \<Rightarrow> ((None, Some er), e)
      | None \<Rightarrow>
          (case Flush (e_bitBuffer e, e_bitWriter e) of
             ((buf, pend), Some er) \<Rightarrow>
               ((None, Some er), e\<lparr>e_bitBuffer := buf, e_bitWriter := pend\<rparr>)
           | ((buf, pend), None) \<Rightarrow>
               ((Some buf, None), e\<lparr>e_bitBuffer := buf, e_bitWriter := pend\<rparr>)))"

text \<open>A sequence of calls on one encoder, in order.\<close>

datatype encoder_call = CallAppendTime bool | CallAppendValue uint64 | CallReset

fun call_encoder :: "tsdEncoder \<Rightarrow> encoder_call \<Rightarrow> tsdEncoder" where
  "call_encoder e (CallAppendTime slot) = AppendTime e slot"
| "call_encoder e (CallAppendValue v) = AppendValue e v"
| "call_encoder e CallReset = Reset_encoder e"

definition call_encoder_list :: "tsdEncoder \<Rightarrow> encoder_call list \<Rightarrow> tsdEncoder" where
  "call_encoder_list e cs = foldl call_encoder e cs"

fun is_AppendTime :: "encoder_call \<Rightarrow> bool" where
  "is_AppendTime (CallAppendTime slot) = True"
| "is_AppendTime c = False"

fun is_Append :: "encoder_call \<Rightarrow> bool" where
  "is_Append CallReset = False"
| "is_Append c = True"

section \<open>Bit reader and XOR value decoder\<close>

text \<open>
  Modelled from the spec: \<open>bit.Reader\<close> (pkg/bit) and \<open>bufioutil.Buffer\<close> are not among
  the sources. The reader is the sequence of the bits of the block that were not read yet,
  the most significant bit of each byte first; reading past the end is the error
  \<open>ErrEOF\<close>.
\<close>

type_synonym bit_reader = "bool list"

definition bits_of_bytes :: "byte list \<Rightarrow> bool list" where
  "bits_of_bytes data = concat (map (bits_of_word 8) data)"

definition ReadBit :: "bit_reader \<Rightarrow> (error + bool) \<times> bit_reader" where
  "ReadBit r = (case r of [] \<Rightarrow> (Inl ErrEOF, []) | b # r' \<Rightarrow> (Inr b, r'))"

definition ReadBits :: "bit_reader \<Rightarrow> nat \<Rightarrow> (error + uint64) \<times> bit_reader" where
  "ReadBits r n =
     (if length r < n then (Inl ErrEOF, [])
      else (Inr (word_of_bits (take n r)), drop n r))"

text \<open>
  Modelled from the spec: \<open>XORDecoder\<close> (pkg/encoding) is not among the sources. \<open>Next\<close>
  reads the next value of the stream written by the XOR encoder and reports whether there
  was one; \<open>Value\<close> is the value read last.
\<close>

record XORDecoder =
  xd_first :: bool
  xd_val :: uint64

definition NewXORDecoder :: XORDecoder where
  "NewXORDecoder = \<lparr>xd_first = True, xd_val = 0\<rparr>"

definition xd_Next :: "XORDecoder \<Rightarrow> bit_reader \<Rightarrow> bool \<times> XORDecoder \<times> bit_reader" where
  "xd_Next x r =
     (if xd_first x then
        (case ReadBits r 64 of
           (Inl e, r1) \<Rightarrow> (False, x, r1)
         | (Inr v, r1) \<Rightarrow> (True, \<lparr>xd_first = False, xd_val = v\<rparr>, r1))
      else
        (case ReadBit r of
           (Inl e, r1) \<Rightarrow> (False, x, r1)
         | (Inr c, r1) \<Rightarrow>
             if \<not> c then (True, x, r1)
             else (case ReadBits r1 6 of
                     (Inl e, r2) \<Rightarrow> (False, x, r2)
                   | (Inr l, r2) \<Rightarrow>
                       (case ReadBits r2 6 of
                          (Inl e, r3) \<Rightarrow> (False, x, r3)
                        | (Inr t, r3) \<Rightarrow>
                            (case ReadBits r3 (64 - unat l - unat t) of
                               (Inl e, r4) \<Rightarrow> (False, x, r4)
                             | (Inr m, r4) \<Rightarrow>
                                 (True, x\<lparr>xd_val := xd_val x XOR push_bit (unat t) m\<rparr>,
                                  r4))))))"

section \<open>TSD decoder (pkg/encoding/tsd.go)\<close>

text \<open>
  The fields of \<open>TSDDecoder\<close>. The reader and the XOR decoder are nil (\<open>None\<close>) until the
  first \<open>reset\<close>; the byte buffer \<open>buf\<close> of the source is part of the reader here.
\<close>

record TSDDecoder =
  d_startTime :: uint16
  d_endTime :: uint16
  d_reader :: "bit_reader option"
  d_values :: "XORDecoder option"
  d_idx :: uint16
  d_err :: "error option"

text \<open>\<open>binary.LittleEndian.Uint16\<close> on a slice of two bytes.\<close>

definition Uint16 :: "byte list \<Rightarrow> uint16" where
  "Uint16 b = ucast (b ! 0) OR push_bit 8 (ucast (b ! 1))"

definition reset_decoder :: "TSDDecoder \<Rightarrow> byte list \<Rightarrow> TSDDecoder" where
  "reset_decoder d data =
     d\<lparr>d_reader := Some (bits_of_bytes data), d_values := Some NewXORDecoder,
       d_idx := 0, d_err := None\<rparr>"

definition Reset_decoder :: "TSDDecoder \<Rightarrow> byte list \<Rightarrow> TSDDecoder" where
  "Reset_decoder d data =
     (if length data \<le> 4 then d\<lparr>d_err := Some ErrBadData\<rparr>
      else (reset_decoder d data)
             \<lparr>d_startTime := Uint16 (take 2 data),
              d_endTime := Uint16 (take 2 (drop 2 data)),
              d_reader := Some (bits_of_bytes (drop 4 data))\<rparr>)"

definition ResetWithTimeRange :: "TSDDecoder \<Rightarrow> byte list \<Rightarrow> uint16 \<Rightarrow> uint16 \<Rightarrow> TSDDecoder" where
  "ResetWithTimeRange d data start end =
     (reset_decoder d data)\<lparr>d_startTime := start, d_endTime := end\<rparr>"

definition NewTSDDecoder :: "byte list \<Rightarrow> TSDDecoder" where
  "NewTSDDecoder data =
     (let decoder = \<lparr>d_startTime = 0, d_endTime = 0, d_reader = None, d_values = None,
                      d_idx = 0, d_err = None\<rparr>
      in if length data > 4 then Reset_decoder decoder data else decoder)"

definition Error :: "TSDDecoder \<Rightarrow> error option" where
  "Error d = d_err d"

definition StartTime :: "TSDDecoder \<Rightarrow> uint16" where
  "StartTime d = d_startTime d"

definition EndTime :: "TSDDecoder \<Rightarrow> uint16" where
  "EndTime d = d_endTime d"

definition Next :: "TSDDecoder \<Rightarrow> bool \<times> TSDDecoder" where
  "Next d =
     (if d_startTime d + d_idx d \<le> d_endTime d then (True, d\<lparr>d_idx := d_idx d + 1\<rparr>)
      else (False, d))"

definition HasValue :: "TSDDecoder \<Rightarrow> bool \<times> TSDDecoder" where
  "HasValue d =
     (case d_reader d of
        None \<Rightarrow> (False, d)
      | Some r \<Rightarrow>
          (case ReadBit r of
             (Inl e, r') \<Rightarrow> (False, d\<lparr>d_reader := Some r', d_err := Some e\<rparr>)
           | (Inr b, r') \<Rightarrow> (b, d\<lparr>d_reader := Some r'\<rparr>)))"

text \<open>
  \<open>Value\<close>: the XOR decoder reads from the decoder's own reader (the two share it in the
  source), so both are nil or both are set.
\<close>

definition Value :: "TSDDecoder \<Rightarrow> uint64 \<times> TSDDecoder" where
  "Value d =
     (case d_values d of
        None \<Rightarrow> (0, d)
      | Some x \<Rightarrow>
          (case d_reader d of
             None \<Rightarrow> (0, d)
           | Some r \<Rightarrow>
               (case xd_Next x r of
                  (ok, x', r') \<Rightarrow>
                    ((if ok then xd_val x' else 0),
                     d\<lparr>d_values := Some x', d_reader := Some r'\<rparr>))))"

definition DecodeTSDTime :: "byte list \<Rightarrow> uint16 \<times> uint16" where
  "DecodeTSDTime data = (Uint16 (take 2 data), Uint16 (take 2 (drop 2 data)))"

text \<open>
  The decoding loop of a block, \<open>for d.Next() { if d.HasValue() { v := d.Value() } }\<close>,
  collecting for every slot its value or its absence. \<open>Next\<close> need not ever return false,
  so the loop runs on fuel: one unit for each slot, \<open>None\<close> when the fuel is used up
  before \<open>Next\<close> returns false.
\<close>

fun decode_slots :: "nat \<Rightarrow> TSDDecoder \<Rightarrow> (uint64 option list \<times> TSDDecoder) option" where
  "decode_slots 0 d =
     (case Next d of (True, d1) \<Rightarrow> None | (False, d1) \<Rightarrow> Some ([], d1))"
| "decode_slots (Suc fuel) d =
     (case Next d of
        (False, d1) \<Rightarrow> Some ([], d1)
      | (True, d1) \<Rightarrow>
          (case HasValue d1 of
             (True, d2) \<Rightarrow>
               (case Value d2 of
                  (v, d3) \<Rightarrow>
                    map_option (\<lambda>(xs, d'). (Some v # xs, d')) (decode_slots fuel d3))
           | (False, d2) \<Rightarrow>
               map_option (\<lambda>(xs, d'). (None # xs, d')) (decode_slots fuel d2)))"

text \<open>
  Feeding a sequence of slots to the encoder: one \<open>AppendTime\<close> for every slot and one
  \<open>AppendValue\<close> for every slot that has a value.
\<close>

fun slot_calls :: "uint64 option \<Rightarrow> encoder_call list" where
  "slot_calls None = [CallAppendTime False]"
| "slot_calls (Some v) = [CallAppendTime True, CallAppendValue v]"

definition encode_slots :: "uint16 \<Rightarrow> uint64 option list \<Rightarrow> tsdEncoder" where
  "encode_slots startTime slots =
     call_encoder_list (NewTSDEncoder startTime) (concat (map slot_calls slots))"

text \<open>A nil slice has no bytes.\<close>

definition slice_bytes :: "byte list option \<Rightarrow> byte list" where
  "slice_bytes b = (case b of None \<Rightarrow> [] | Some bs \<Rightarrow> bs)"

text \<open>A sequence of calls on one decoder between two resets, in order.\<close>

datatype decoder_call = CallNext | CallHasValue | CallValue

fun call_decoder :: "TSDDecoder \<Rightarrow> decoder_call \<Rightarrow> TSDDecoder" where
  "call_decoder d CallNext = snd (Next d)"
| "call_decoder d CallHasValue = snd (HasValue d)"
| "call_decoder d CallValue = snd (Value d)"

text \<open>
  The bits a writer has taken so far, and the bits a sequence of \<open>AppendTime\<close> and
  \<open>AppendValue\<close> calls adds to them (\<open>first\<close> and \<open>prev\<close> are the state of the XOR
  encoder before the calls).
\<close>

definition written :: "bit_writer \<Rightarrow> bool list" where
  "written w = bits_of_bytes (fst w) @ snd w"

definition encoder_stream :: "tsdEncoder \<Rightarrow> bool list" where
  "encoder_stream e = written (e_bitBuffer e, e_bitWriter e)"

fun calls_code :: "bool \<Rightarrow> uint64 \<Rightarrow> encoder_call list \<Rightarrow> bool list" where
  "calls_code first prev [] = []"
| "calls_code first prev (CallAppendTime b # cs) = b # calls_code first prev cs"
| "calls_code first prev (CallAppendValue v # cs) =
     xor_code first prev v @ calls_code False v cs"
| "calls_code first prev (CallReset # cs) = calls_code first prev cs"

section \<open>Memory database (tsdb/memdb/database.go)\<close>

text \<open>
  The metric point and its protocol payload. \<open>field.ID\<close>, \<open>field.Type\<close> and the generated
  protocol types are declared outside the sources at hand; they are taken with the fields
  and constants that \<open>database.go\<close> uses; \<open>SIMPLE_UNSPECIFIED\<close> stands for every
  simple field type other than the three that the code names. A \<open>float64\<close> value is a
  real number here (the code only passes values on and compares \<open>Min\<close> and \<open>Max\<close> with
  0).
\<close>

type_synonym field_id = nat

datatype field_type = SumField | MinField | MaxField | GaugeField | HistogramField

datatype SimpleFieldType = SIMPLE_UNSPECIFIED | DELTA_SUM | CUMULATIVE_SUM | GAUGE

record SimpleField =
  sf_Type :: SimpleFieldType
  sf_Value :: real

record CompoundField =
  cf_Min :: real
  cf_Max :: real
  cf_Sum :: real
  cf_Count :: real
  cf_ExplicitBounds :: "real list"
  cf_Values :: "real list"

record Metric =
  p_SimpleFields :: "SimpleField list"
  p_CompoundField :: "CompoundField option"

record MetricPoint =
  MetricID :: nat
  SeriesID :: nat
  SlotIndex :: uint16
  FieldIDs :: "field_id list"
  Proto :: Metric

text \<open>
  Modelled from the spec: the field store, the series store (\<open>tStoreINTF\<close>), the metric
  store (\<open>mStoreINTF\<close>), the metric bucket store and the page buffer (\<open>DataPointBuffer\<close>)
  are not among the sources. A field store keeps the points written to it, in order; a
  series store maps field IDs to field stores (\<open>GetFStore\<close>, \<open>InsertFStore\<close>); a metric
  store maps series IDs to series stores (\<open>GetOrCreateTStore\<close>) and keeps the known fields
  (\<open>AddField\<close>) and the slots that hold data (\<open>SetSlot\<close>); the bucket store is the list of
  the (metric ID, metric store) entries in the order of \<open>WalkEntry\<close>. The page buffer is
  the list of the results of its coming \<open>AllocPage\<close> calls (\<open>None\<close>: a page, \<open>Some e\<close>:
  the failure \<open>e\<close>); when the list is used up the storage is exhausted. The sizes that the
  stores report for the memory accounting are parameters.
\<close>

type_synonym fStore = "(field_type \<times> uint16 \<times> real) list"

type_synonym tStore = "field_id \<rightharpoonup> fStore"

record mStore =
  ms_tStores :: "nat \<rightharpoonup> tStore"
  ms_fields :: "(field_id \<times> field_type) list"
  ms_slots :: "uint16 list"

record sizes =
  emptyMStoreSize :: int
  emptyTStoreSize :: int
  emptyFStoreSize :: int
  pointSize :: int

definition newMetricStore :: mStore where
  "newMetricStore = \<lparr>ms_tStores = Map.empty, ms_fields = [], ms_slots = []\<rparr>"

definition GetOrCreateTStore :: "sizes \<Rightarrow> mStore \<Rightarrow> nat \<Rightarrow> (tStore \<times> int) \<times> mStore" where
  "GetOrCreateTStore sz ms seriesID =
     (case ms_tStores ms seriesID of
        Some ts \<Rightarrow> ((ts, 0), ms)
      | None \<Rightarrow>
          ((Map.empty, emptyTStoreSize sz),
           ms\<lparr>ms_tStores := (ms_tStores ms)(seriesID \<mapsto> Map.empty)\<rparr>))"

definition AddField :: "mStore \<Rightarrow> field_id \<Rightarrow> field_type \<Rightarrow> mStore" where
  "AddField ms fieldID fieldType =
     (if fieldID \<in> fst ` set (ms_fields ms) then ms
      else ms\<lparr>ms_fields := ms_fields ms @ [(fieldID, fieldType)]\<rparr>)"

definition SetSlot :: "mStore \<Rightarrow> uint16 \<Rightarrow> mStore" where
  "SetSlot ms slot =
     (if slot \<in> set (ms_slots ms) then ms else ms\<lparr>ms_slots := ms_slots ms @ [slot]\<rparr>)"

definition bucket_Get :: "(nat \<times> mStore) list \<Rightarrow> nat \<Rightarrow> mStore option" where
  "bucket_Get b metricID = map_of b metricID"

fun bucket_Put :: "(nat \<times> mStore) list \<Rightarrow> nat \<Rightarrow> mStore \<Rightarrow> (nat \<times> mStore) list" where
  "bucket_Put [] k v = [(k, v)]"
| "bucket_Put ((k', v') # b) k v =
     (if k' = k then (k, v) # b else (k', v') # bucket_Put b k v)"

text \<open>
  The fields of \<open>memoryDatabase\<close> that the write and the flush path use: the bucket store,
  the page buffer, the allocated size (an \<open>atomic.Int32\<close>) and the two counters of
  \<open>memoryDBMetrics\<close>. \<open>md_writes\<close> is not a field of the source: it lists the
  \<open>fStore.Write\<close> calls made so far, in order, each with its field ID, field type and
  value, so that the order of the writes to different field stores can be stated.
\<close>

record memoryDatabase =
  md_mStores :: "(nat \<times> mStore) list"
  md_buf :: "error option list"
  md_allocSize :: "32 word"
  md_allocatedPages :: nat
  md_allocatedPageFailures :: nat
  md_writes :: "(field_id \<times> field_type \<times> real) list"

definition NewMemoryDatabase :: "error option list \<Rightarrow> memoryDatabase" where
  "NewMemoryDatabase buf =
     \<lparr>md_mStores = [], md_buf = buf, md_allocSize = 0, md_allocatedPages = 0,
      md_allocatedPageFailures = 0, md_writes = []\<rparr>"

definition AllocPage :: "memoryDatabase \<Rightarrow> error option \<times> memoryDatabase" where
  "AllocPage md =
     (case md_buf md of
        [] \<Rightarrow> (Some ErrAllocPage, md)
      | r # rest \<Rightarrow> (r, md\<lparr>md_buf := rest\<rparr>))"

definition getOrCreateMStore :: "sizes \<Rightarrow> memoryDatabase \<Rightarrow> nat \<Rightarrow> mStore \<times> memoryDatabase" where
  "getOrCreateMStore sz md metricID =
     (case bucket_Get (md_mStores md) metricID of
        Some ms \<Rightarrow> (ms, md)
      | None \<Rightarrow>
          (newMetricStore,
           md\<lparr>md_allocSize := md_allocSize md + of_int (emptyMStoreSize sz),
              md_mStores := bucket_Put (md_mStores md) metricID newMetricStore\<rparr>))"

text \<open>
  The state of one \<open>WriteWithoutLock\<close> call: the database, the metric store and the series
  store it works on (pointers into the database in the source, so that what is done to them
  is done to the database: \<open>store_back\<close> puts them back whenever the call returns), and the
  local variables \<open>size\<close>, \<open>written\<close> and \<open>fieldIDIdx\<close>.
\<close>

record write_state =
  w_md :: memoryDatabase
  w_mStore :: mStore
  w_tStore :: tStore
  w_size :: int
  w_written :: bool
  w_fieldIDIdx :: nat

text \<open>How a call ends: it returns nil, it returns an error, or it panics.\<close>

datatype outcome = Done | Failed error | Panicked

text \<open>
  \<open>then_run r f\<close>: go on with \<open>f\<close> after a step that ended with \<open>r\<close>, unless the step
  returned an error or panicked (\<open>if err != nil { return err }\<close>).
\<close>

definition then_run ::
  "outcome \<times> 's \<Rightarrow> ('s \<Rightarrow> outcome \<times> 's) \<Rightarrow> outcome \<times> 's" where
  "then_run r f = (case r of (Done, c) \<Rightarrow> f c | (Failed e, c) \<Rightarrow> r | (Panicked, c) \<Rightarrow> r)"

definition writeLinField ::
  "sizes \<Rightarrow> uint16 \<Rightarrow> field_id \<Rightarrow> field_type \<Rightarrow> real \<Rightarrow> write_state
     \<Rightarrow> (error + int) \<times> write_state" where
  "writeLinField sz slotIndex fieldID fieldType fieldValue c =
     (case w_tStore c fieldID of
        Some fs \<Rightarrow>
          (Inr (pointSize sz),
           c\<lparr>w_tStore := (w_tStore c)(fieldID \<mapsto> fs @ [(fieldType, slotIndex, fieldValue)]),
             w_md := (w_md c)\<lparr>md_writes :=
                        md_writes (w_md c) @ [(fieldID, fieldType, fieldValue)]\<rparr>\<rparr>)
      | None \<Rightarrow>
          (case AllocPage (w_md c) of
             (Some e, md1) \<Rightarrow>
               (Inl e,
                c\<lparr>w_md := md1\<lparr>md_allocatedPageFailures :=
                                 md_allocatedPageFailures md1 + 1\<rparr>\<rparr>)
           | (None, md1) \<Rightarrow>
               (Inr (emptyFStoreSize sz + pointSize sz),
                c\<lparr>w_tStore := (w_tStore c)(fieldID \<mapsto> [(fieldType, slotIndex, fieldValue)]),
                  w_mStore := AddField (w_mStore c) fieldID fieldType,
                  w_md := md1\<lparr>md_allocatedPages := md_allocatedPages md1 + 1,
                              md_writes :=
                                md_writes md1 @ [(fieldID, fieldType, fieldValue)]\<rparr>\<rparr>)))"

definition afterWrite :: "int \<Rightarrow> write_state \<Rightarrow> write_state" where
  "afterWrite writtenLinFieldSize c =
     c\<lparr>w_fieldIDIdx := w_fieldIDIdx c + 1, w_size := w_size c + writtenLinFieldSize,
       w_written := True\<rparr>"

text \<open>
  One field write of \<open>WriteWithoutLock\<close>: \<open>writeLinField\<close> with the field ID at the
  current index (Go panics when the index is out of range), the return of its error, and
  \<open>afterWrite\<close>.
\<close>

definition write_field ::
  "sizes \<Rightarrow> MetricPoint \<Rightarrow> field_type \<Rightarrow> real \<Rightarrow> write_state \<Rightarrow> outcome \<times> write_state" where
  "write_field sz point fieldType fieldValue c =
     (if w_fieldIDIdx c < length (FieldIDs point) then
        (case writeLinField sz (SlotIndex point) (FieldIDs point ! w_fieldIDIdx c)
                fieldType fieldValue c of
           (Inl e, c') \<Rightarrow> (Failed e, c')
         | (Inr n, c') \<Rightarrow> (Done, afterWrite n c'))
      else (Panicked, c))"

fun write_simple_fields ::
  "sizes \<Rightarrow> MetricPoint \<Rightarrow> SimpleField list \<Rightarrow> write_state \<Rightarrow> outcome \<times> write_state" where
  "write_simple_fields sz point [] c = (Done, c)"
| "write_simple_fields sz point (f # fs) c =
     (case sf_Type f of
        DELTA_SUM \<Rightarrow>
          then_run (write_field sz point SumField (sf_Value f) c)
            (\<lambda>c'. write_simple_fields sz point fs c')
      | CUMULATIVE_SUM \<Rightarrow>
          then_run (write_field sz point SumField (sf_Value f) c)
            (\<lambda>c'. write_simple_fields sz point fs c')
      | GAUGE \<Rightarrow>
          then_run (write_field sz point GaugeField (sf_Value f) c)
            (\<lambda>c'. write_simple_fields sz point fs c')
      | SIMPLE_UNSPECIFIED \<Rightarrow> write_simple_fields sz point fs c)"

text \<open>
  The loop over \<open>compoundField.ExplicitBounds\<close>, from index \<open>idx\<close> on; \<open>Values[idx]\<close>
  panics when \<open>Values\<close> is shorter than \<open>ExplicitBounds\<close>.
\<close>

fun write_buckets ::
  "sizes \<Rightarrow> MetricPoint \<Rightarrow> real list \<Rightarrow> nat \<Rightarrow> real list \<Rightarrow> write_state
     \<Rightarrow> outcome \<times> write_state" where
  "write_buckets sz point vals idx [] c = (Done, c)"
| "write_buckets sz point vals idx (b # bounds) c =
     (if idx < length vals then
        then_run (write_field sz point HistogramField (vals ! idx) c)
          (\<lambda>c'. write_buckets sz point vals (Suc idx) bounds c')
      else (Panicked, c))"

definition write_compound_field ::
  "sizes \<Rightarrow> MetricPoint \<Rightarrow> CompoundField \<Rightarrow> write_state \<Rightarrow> outcome \<times> write_state" where
  "write_compound_field sz point cf c =
     then_run (if cf_Min cf > 0 then write_field sz point MinField (cf_Min cf) c
               else (Done, c))
       (\<lambda>c1. then_run (if cf_Max cf > 0 then write_field sz point MinField (cf_Max cf) c1
                        else (Done, c1))
          (\<lambda>c2. then_run (write_field sz point SumField (cf_Sum cf) c2)
             (\<lambda>c3. then_run (write_field sz point SumField (cf_Count cf) c3)
                (\<lambda>c4. write_buckets sz point (cf_Values cf) 0 (cf_ExplicitBounds cf) c4))))"

definition store_back :: "MetricPoint \<Rightarrow> write_state \<Rightarrow> memoryDatabase" where
  "store_back point c =
     (w_md c)\<lparr>md_mStores :=
        bucket_Put (md_mStores (w_md c)) (MetricID point)
          ((w_mStore c)\<lparr>ms_tStores := (ms_tStores (w_mStore c))(SeriesID point \<mapsto> w_tStore c)\<rparr>)\<rparr>"

text \<open>
  \<open>WriteWithoutLock\<close> in three parts: \<open>begin_write\<close> gets or creates the metric store and
  the series store and sets the local variables; the field writes follow; \<open>end_write\<close> is
  the code at the label \<open>End\<close>.
\<close>

definition begin_write :: "sizes \<Rightarrow> memoryDatabase \<Rightarrow> MetricPoint \<Rightarrow> write_state" where
  "begin_write sz md point =
     (case getOrCreateMStore sz md (MetricID point) of
        (ms, md1) \<Rightarrow>
          (case GetOrCreateTStore sz ms (SeriesID point) of
             ((ts, createdSize), ms1) \<Rightarrow>
               \<lparr>w_md = md1, w_mStore = ms1, w_tStore = ts, w_size = createdSize,
                w_written = False, w_fieldIDIdx = 0\<rparr>))"

definition end_write :: "MetricPoint \<Rightarrow> write_state \<Rightarrow> write_state" where
  "end_write point c =
     (let c' = (if w_written c then c\<lparr>w_mStore := SetSlot (w_mStore c) (SlotIndex point)\<rparr>
                else c)
      in c'\<lparr>w_md := (w_md c')\<lparr>md_allocSize := md_allocSize (w_md c') + of_int (w_size c')\<rparr>\<rparr>)"

definition WriteWithoutLock ::
  "sizes \<Rightarrow> memoryDatabase \<Rightarrow> MetricPoint \<Rightarrow> outcome \<times> memoryDatabase" where
  "WriteWithoutLock sz md point =
     (case then_run (write_simple_fields sz point (p_SimpleFields (Proto point))
                       (begin_write sz md point))
             (\<lambda>c1. case p_CompoundField (Proto point) of
                      None \<Rightarrow> (Done, c1)
                    | Some cf \<Rightarrow> write_compound_field sz point cf c1) of
        (Done, c2) \<Rightarrow> (Done, store_back point (end_write point c2))
      | (r, c2) \<Rightarrow> (r, store_back point c2))"

text \<open>\<open>Write\<close> takes the lock around \<open>WriteWithoutLock\<close>; in a sequential run it is the same.\<close>

definition Write :: "sizes \<Rightarrow> memoryDatabase \<Rightarrow> MetricPoint \<Rightarrow> outcome \<times> memoryDatabase" where
  "Write sz md point = WriteWithoutLock sz md point"

text \<open>
  The field writes that \<open>WriteWithoutLock\<close> makes for a point when none of them fails,
  in order and each with its field type and value: first the simple fields of type sum or
  gauge, then for a compound field min (if positive), max (if positive, with the field type
  that the source gives it), sum, count and one write for each explicit bound.
  \<open>run_plan\<close> makes such writes one after the other and stops at the first that does not
  succeed; \<open>with_ids\<close> pairs writes with the field IDs from an index on.
\<close>

fun simple_plan :: "SimpleField list \<Rightarrow> (field_type \<times> real) list" where
  "simple_plan [] = []"
| "simple_plan (f # fs) =
     (case sf_Type f of
        DELTA_SUM \<Rightarrow> [(SumField, sf_Value f)]
      | CUMULATIVE_SUM \<Rightarrow> [(SumField, sf_Value f)]
      | GAUGE \<Rightarrow> [(GaugeField, sf_Value f)]
      | SIMPLE_UNSPECIFIED \<Rightarrow> []) @ simple_plan fs"

definition compound_plan :: "CompoundField \<Rightarrow> (field_type \<times> real) list" where
  "compound_plan cf =
     (if cf_Min cf > 0 then [(MinField, cf_Min cf)] else [])
     @ (if cf_Max cf > 0 then [(MinField, cf_Max cf)] else [])
     @ [(SumField, cf_Sum cf), (SumField, cf_Count cf)]
     @ map (\<lambda>v. (HistogramField, v)) (take (length (cf_ExplicitBounds cf)) (cf_Values cf))"

definition point_plan :: "MetricPoint \<Rightarrow> (field_type \<times> real) list" where
  "point_plan point =
     simple_plan (p_SimpleFields (Proto point))
     @ (case p_CompoundField (Proto point) of None \<Rightarrow> [] | Some cf \<Rightarrow> compound_plan cf)"

fun run_plan ::
  "sizes \<Rightarrow> MetricPoint \<Rightarrow> (field_type \<times> real) list \<Rightarrow> write_state \<Rightarrow> outcome \<times> write_state" where
  "run_plan sz point [] c = (Done, c)"
| "run_plan sz point (w # ws) c =
     then_run (write_field sz point (fst w) (snd w) c) (\<lambda>c'. run_plan sz point ws c')"

definition with_ids ::
  "field_id list \<Rightarrow> nat \<Rightarrow> (field_type \<times> real) list \<Rightarrow> (field_id \<times> field_type \<times> real) list" where
  "with_ids ids idx ws = zip (drop idx ids) ws"

text \<open>Whether \<open>Values\<close> of the point's compound field is as long as \<open>ExplicitBounds\<close>.\<close>

definition values_ok :: "MetricPoint \<Rightarrow> bool" where
  "values_ok point =
     (case p_CompoundField (Proto point) of
        None \<Rightarrow> True
      | Some cf \<Rightarrow> length (cf_ExplicitBounds cf) \<le> length (cf_Values cf))"

text \<open>
  The histogram point of the specification's scenario (\<open>Min=1, Max=9, Sum=20, Count=4,
  ExplicitBounds=[1,5], Values=[2,2]\<close>) with six field IDs, and sizes of one byte each.
\<close>

definition histogram_point :: MetricPoint where
  "histogram_point =
     \<lparr>MetricID = 1, SeriesID = 7, SlotIndex = 10, FieldIDs = [11, 12, 13, 14, 15, 16],
      Proto = \<lparr>p_SimpleFields = [],
               p_CompoundField =
                 Some \<lparr>cf_Min = 1, cf_Max = 9, cf_Sum = 20, cf_Count = 4,
                       cf_ExplicitBounds = [1, 5], cf_Values = [2, 2]\<rparr>\<rparr>\<rparr>"

definition unit_sizes :: sizes where
  "unit_sizes = \<lparr>emptyMStoreSize = 1, emptyTStoreSize = 1, emptyFStoreSize = 1, pointSize = 1\<rparr>"

section \<open>Flush (tsdb/memdb/database.go)\<close>

text \<open>
  Modelled from the spec: the flusher (\<open>metricsdata.Flusher\<close>), \<open>FlushMetricsDataTo\<close> of the
  metric store and \<open>WalkEntry\<close> of the bucket store are not among the sources. The flusher
  keeps the list of the calls made on it; whether the flush of a metric fails, and whether
  \<open>Commit\<close> fails, is given with the flusher. \<open>WalkEntry\<close> "visits every (metricID,
  mStore) pair, aborting early and propagating the first error the visitor returns".
\<close>

datatype flusher_call = CallFlushMetrics nat | CallCommit

record Flusher =
  fl_calls :: "flusher_call list"
  fl_flush_error :: "nat \<Rightarrow> error option"
  fl_commit_error :: "error option"

definition FlushMetricsDataTo :: "mStore \<Rightarrow> Flusher \<Rightarrow> nat \<Rightarrow> error option \<times> Flusher" where
  "FlushMetricsDataTo ms flusher metricID =
     (fl_flush_error flusher metricID,
      flusher\<lparr>fl_calls := fl_calls flusher @ [CallFlushMetrics metricID]\<rparr>)"

definition Commit :: "Flusher \<Rightarrow> error option \<times> Flusher" where
  "Commit flusher =
     (fl_commit_error flusher, flusher\<lparr>fl_calls := fl_calls flusher @ [CallCommit]\<rparr>)"

fun WalkEntry ::
  "(nat \<times> mStore) list \<Rightarrow> (nat \<Rightarrow> mStore \<Rightarrow> 's \<Rightarrow> error option \<times> 's) \<Rightarrow> 's
     \<Rightarrow> error option \<times> 's" where
  "WalkEntry [] visit s = (None, s)"
| "WalkEntry ((key, val) # entries) visit s =
     (case visit key val s of
        (Some e, s') \<Rightarrow> (Some e, s')
      | (None, s') \<Rightarrow> WalkEntry entries visit s')"

text \<open>
  \<open>FlushFamilyTo\<close> and the visitor that it passes to \<open>WalkEntry\<close>. The wait for the
  writes in flight (\<open>writeCondition.Wait()\<close>) has no effect in a sequential run.
\<close>

definition flush_visitor :: "nat \<Rightarrow> mStore \<Rightarrow> Flusher \<Rightarrow> error option \<times> Flusher" where
  "flush_visitor key val flusher =
     (case FlushMetricsDataTo val flusher key of
        (Some e, fl') \<Rightarrow> (Some e, fl')
      | (None, fl') \<Rightarrow> (None, fl'))"

definition FlushFamilyTo :: "memoryDatabase \<Rightarrow> Flusher \<Rightarrow> error option \<times> Flusher" where
  "FlushFamilyTo md flusher =
     (case WalkEntry (md_mStores md) flush_visitor flusher of
        (Some e, fl') \<Rightarrow> (Some e, fl')
      | (None, fl') \<Rightarrow> Commit fl')"

section \<open>Properties of the encoder\<close>

lemma WriteBit_no_error: "snd (WriteBit w b) = None"
  by (simp add: WriteBit_def Let_def)

lemma write_bit_list_no_error: "snd (write_bit_list w bs) = None"
proof (induction bs arbitrary: w)
  case Nil
  show ?case by simp
next
  case (Cons b bs)
  obtain w' r where wb: "WriteBit w b = (w', r)" by (cases "WriteBit w b")
  with WriteBit_no_error [of w b] have "r = None" by simp
  with wb Cons.IH [of w'] show ?case by simp
qed

lemma xe_Write_no_error: "snd (xe_Write x w v) = None"
  using write_bit_list_no_error [of w "xor_code (xe_first x) (xe_prevVal x) v"]
  by (auto simp: xe_Write_def split: prod.splits)

lemma Flush_no_error: "snd (Flush w) = None"
  by (simp add: Flush_def)

lemma AppendTime_err: "e_err e = None \<Longrightarrow> e_err (AppendTime e b) = None"
  using WriteBit_no_error [of "(e_bitBuffer e, e_bitWriter e)" b]
  by (auto simp: AppendTime_def split: prod.splits)

lemma AppendValue_err: "e_err e = None \<Longrightarrow> e_err (AppendValue e v) = None"
  using xe_Write_no_error [of "e_values e" "(e_bitBuffer e, e_bitWriter e)" v]
  by (auto simp: AppendValue_def split: prod.splits)

lemma call_encoder_err: "e_err e = None \<Longrightarrow> e_err (call_encoder e c) = None"
  by (cases c) (simp_all add: AppendTime_err AppendValue_err Reset_encoder_def)

lemma call_encoder_list_err:
  "e_err e = None \<Longrightarrow> e_err (call_encoder_list e cs) = None"
  unfolding call_encoder_list_def
  by (induction cs arbitrary: e) (simp_all add: call_encoder_err)

lemma AppendValue_count: "e_count (AppendValue e v) = e_count e"
  by (simp add: AppendValue_def split: prod.splits)

lemma AppendValue_startTime: "e_startTime (AppendValue e v) = e_startTime e"
  by (simp add: AppendValue_def split: prod.splits)

lemma AppendTime_startTime: "e_startTime (AppendTime e b) = e_startTime e"
  by (simp add: AppendTime_def split: prod.splits)

lemma AppendTime_count:
  "e_err e = None \<Longrightarrow> e_count (AppendTime e b) = e_count e + 1"
  by (simp add: AppendTime_def split: prod.splits)

lemma call_encoder_startTime: "e_startTime (call_encoder e c) = e_startTime e"
  by (cases c) (simp_all add: AppendTime_startTime AppendValue_startTime Reset_encoder_def)

lemma call_encoder_list_startTime:
  "e_startTime (call_encoder_list e cs) = e_startTime e"
  unfolding call_encoder_list_def
  by (induction cs arbitrary: e) (simp_all add: call_encoder_startTime)

lemma call_encoder_count:
  "e_err e = None \<Longrightarrow>
   e_count (call_encoder e c) = e_count e + (if is_AppendTime c then 1 else 0)"
  by (cases c) (simp_all add: AppendTime_count AppendValue_count Reset_encoder_def)

lemma call_encoder_list_count:
  "e_err e = None \<Longrightarrow>
   e_count (call_encoder_list e cs) = e_count e + of_nat (length (filter is_AppendTime cs))"
  unfolding call_encoder_list_def
proof (induction cs arbitrary: e)
  case Nil
  show ?case by simp
next
  case (Cons c cs)
  have "e_err (call_encoder e c) = None"
    using Cons.prems by (rule call_encoder_err)
  from Cons.IH [OF this] show ?case
    by (simp add: call_encoder_count [OF Cons.prems])
qed

lemma Bytes_no_error:
  "e_err e = None \<Longrightarrow>
   fst (Bytes e) =
     (if e_count e = 0 then (None, None)
      else (Some (PutUInt16 (e_startTime e) @ PutUInt16 (e_startTime e + e_count e - 1)
                    @ fst (fst (Flush (e_bitBuffer e, e_bitWriter e)))), None))"
  using Flush_no_error [of "(e_bitBuffer e, e_bitWriter e)"]
  by (auto simp: Bytes_def split: prod.splits option.splits)

lemma sticky_call: "e_err e \<noteq> None \<Longrightarrow> is_Append c \<Longrightarrow> call_encoder e c = e"
  by (cases c) (simp_all add: AppendTime_def AppendValue_def)

section \<open>Bits, the XOR code and the decoding loop\<close>

lemma length_bits_of_word [simp]: "length (bits_of_word n w) = n"
  by (simp add: bits_of_word_def)

lemma nth_bits_of_word: "i < n \<Longrightarrow> bits_of_word n w ! i = bit w (n - 1 - i)"
  by (simp add: bits_of_word_def rev_nth)

lemma word_of_bits_of_word: "word_of_bits (bits_of_word n w) = take_bit n w"
proof -
  have "rev (bits_of_word n w) = map (bit w) [0..<n]"
    by (simp add: bits_of_word_def rev_map)
  then show ?thesis
    by (simp add: word_of_bits_def horner_sum_bit_eq_take_bit)
qed

lemma bit_word_of_bits:
  "bit (word_of_bits bs :: 'a::len word) k \<longleftrightarrow>
     k < LENGTH('a) \<and> k < length bs \<and> bs ! (length bs - 1 - k)"
  by (auto simp: word_of_bits_def bit_horner_sum_bit_word_iff rev_nth)

lemma bits_of_word_of_bits:
  "length bs \<le> LENGTH('a) \<Longrightarrow> bits_of_word (length bs) (word_of_bits bs :: 'a::len word) = bs"
  by (rule nth_equalityI) (auto simp: nth_bits_of_word bit_word_of_bits)

lemma leading_zero_bits:
  assumes "k < 64" and "64 - LeadingZeros64 d \<le> k"
  shows "\<not> bit d k"
proof -
  let ?bs = "bits_of_word 64 d"
  have i: "63 - k < length (takeWhile Not ?bs)"
    using assms by (auto simp: LeadingZeros64_def)
  then have "takeWhile Not ?bs ! (63 - k) = ?bs ! (63 - k)"
    by (rule takeWhile_nth)
  moreover have "takeWhile Not ?bs ! (63 - k) \<in> set (takeWhile Not ?bs)"
    using i by (rule nth_mem)
  ultimately have "\<not> ?bs ! (63 - k)"
    by (metis set_takeWhileD)
  then show ?thesis
    using assms(1) by (simp add: nth_bits_of_word)
qed

lemma trailing_zero_bits:
  assumes "k < TrailingZeros64 d"
  shows "\<not> bit d k"
proof -
  let ?bs = "rev (bits_of_word 64 d)"
  have len: "TrailingZeros64 d \<le> 64"
    using length_takeWhile_le [of Not ?bs] by (simp add: TrailingZeros64_def)
  have i: "k < length (takeWhile Not ?bs)"
    using assms by (simp add: TrailingZeros64_def)
  then have "takeWhile Not ?bs ! k = ?bs ! k"
    by (rule takeWhile_nth)
  moreover have "takeWhile Not ?bs ! k \<in> set (takeWhile Not ?bs)"
    using i by (rule nth_mem)
  ultimately have "\<not> ?bs ! k"
    by (metis set_takeWhileD)
  then show ?thesis
    using assms len by (simp add: rev_nth nth_bits_of_word)
qed

lemma zeros_bound:
  assumes "d \<noteq> 0"
  shows "LeadingZeros64 d + TrailingZeros64 d < 64"
proof -
  from assms obtain k where k: "bit d k"
    by (auto simp: bit_eq_iff)
  then have k64: "k < 64"
    using bit_imp_le_length [of d k] by simp
  have "\<not> TrailingZeros64 d > k"
    using k trailing_zero_bits by blast
  moreover have "\<not> 64 - LeadingZeros64 d \<le> k"
    using k k64 leading_zero_bits by blast
  ultimately show ?thesis by arith
qed

lemma significant_bits:
  fixes d :: uint64
  assumes "d \<noteq> 0"
  shows "push_bit (TrailingZeros64 d)
           (take_bit (64 - LeadingZeros64 d - TrailingZeros64 d)
              (drop_bit (TrailingZeros64 d) d)) = d"
proof (rule bit_word_eqI)
  fix k
  assume "k < LENGTH(64)"
  then have k64: "k < 64" by simp
  have lz: "bit d k \<Longrightarrow> k < 64 - LeadingZeros64 d"
    using k64 leading_zero_bits [of k d] not_le by blast
  have tz: "bit d k \<Longrightarrow> TrailingZeros64 d \<le> k"
    using trailing_zero_bits [of k d] not_le by blast
  show "bit (push_bit (TrailingZeros64 d)
           (take_bit (64 - LeadingZeros64 d - TrailingZeros64 d)
              (drop_bit (TrailingZeros64 d) d))) k = bit d k"
  proof (cases "bit d k")
    case True
    with lz tz have "k < 64 - LeadingZeros64 d" "TrailingZeros64 d \<le> k" by auto
    moreover from this have "k - TrailingZeros64 d < 64 - LeadingZeros64 d - TrailingZeros64 d"
      by arith
    ultimately show ?thesis
      using True k64 by (simp add: bit_push_bit_iff bit_take_bit_iff bit_drop_bit_eq)
  next
    case False
    then show ?thesis
      by (auto simp: bit_push_bit_iff bit_take_bit_iff bit_drop_bit_eq)
  qed
qed

lemma ReadBits_append:
  "ReadBits (bits_of_word n w @ rest) n = (Inr (take_bit n w), rest)"
  by (simp add: ReadBits_def word_of_bits_of_word)

lemma six_bits:
  assumes "l < 64"
  shows "unat (take_bit 6 (of_nat l :: uint64)) = l"
proof -
  have "take_bit 6 l = l"
    using assms by (simp add: take_bit_nat_eq_self_iff)
  then have "take_bit 6 (of_nat l :: uint64) = of_nat l"
    by (simp add: take_bit_of_nat)
  moreover have "unat (of_nat l :: uint64) = l"
    using assms by (simp add: unat_of_nat)
  ultimately show ?thesis by simp
qed

lemma xor_back: "prev XOR (v XOR prev) = (v :: uint64)"
  by (rule bit_word_eqI) (auto simp: bit_xor_iff)

lemma xd_Next_delta_code:
  "xd_Next \<lparr>xd_first = False, xd_val = prev\<rparr> (delta_code d @ rest)
     = (True, \<lparr>xd_first = False, xd_val = prev XOR d\<rparr>, rest)"
proof (cases "d = 0")
  case True
  then show ?thesis
    by (simp add: xd_Next_def delta_code_def ReadBit_def)
next
  case False
  let ?l = "LeadingZeros64 d" and ?t = "TrailingZeros64 d"
  have b: "?l + ?t < 64" using False by (rule zeros_bound)
  then have l: "unat (take_bit 6 (of_nat ?l :: uint64)) = ?l"
    and t: "unat (take_bit 6 (of_nat ?t :: uint64)) = ?t"
    by (simp_all add: six_bits)
  have sig: "push_bit ?t (take_bit (64 - (?l + ?t)) (drop_bit ?t d)) = d"
    using significant_bits [OF False] by simp
  show ?thesis
    using False
    by (simp add: xd_Next_def delta_code_def Let_def ReadBit_def ReadBits_append l t sig)
qed

lemma xd_Next_xor_code:
  "xd_Next \<lparr>xd_first = first, xd_val = prev\<rparr> (xor_code first prev v @ rest)
     = (True, \<lparr>xd_first = False, xd_val = v\<rparr>, rest)"
proof (cases first)
  case True
  then show ?thesis
    by (simp add: xd_Next_def xor_code_def ReadBits_append take_bit_word_eq_self)
next
  case False
  then show ?thesis
    by (simp add: xor_code_def xd_Next_delta_code xor_back)
qed

lemma bits_of_bytes_append [simp]:
  "bits_of_bytes (xs @ ys) = bits_of_bytes xs @ bits_of_bytes ys"
  by (simp add: bits_of_bytes_def)

lemma bits_of_bytes_byte:
  "length p = 8 \<Longrightarrow> bits_of_bytes [word_of_bits p] = p"
  using bits_of_word_of_bits [of p, where 'a = 8] by (simp add: bits_of_bytes_def)

lemma WriteBit_written:
  assumes "length (snd w) < 8"
  shows "written (fst (WriteBit w b)) = written w @ [b]"
    and "length (snd (fst (WriteBit w b))) < 8"
  using assms by (auto simp: WriteBit_def Let_def written_def bits_of_bytes_byte)

lemma write_bit_list_written:
  "length (snd w) < 8 \<Longrightarrow>
   written (fst (write_bit_list w bs)) = written w @ bs
   \<and> length (snd (fst (write_bit_list w bs))) < 8"
proof (induction bs arbitrary: w)
  case Nil
  then show ?case by simp
next
  case (Cons b bs)
  obtain w' r where wb: "WriteBit w b = (w', r)" by (cases "WriteBit w b")
  with WriteBit_no_error [of w b] have r: "r = None" by simp
  from wb WriteBit_written [OF Cons.prems, of b]
  have w': "written w' = written w @ [b]" "length (snd w') < 8" by simp_all
  from Cons.IH [OF w'(2)] w'(1) wb r show ?case by simp
qed

lemma Flush_written:
  assumes "length (snd w) < 8"
  shows "bits_of_bytes (fst (fst (Flush w)))
         = written w @ replicate (if snd w = [] then 0 else 8 - length (snd w)) False"
  using assms by (simp add: Flush_def written_def bits_of_bytes_byte)

lemma Flush_nonempty:
  "written w \<noteq> [] \<Longrightarrow> fst (fst (Flush w)) \<noteq> []"
  by (auto simp: Flush_def written_def bits_of_bytes_def)

lemma AppendTime_stream:
  assumes "e_err e = None" and "length (e_bitWriter e) < 8"
  shows "encoder_stream (AppendTime e b) = encoder_stream e @ [b]"
    and "length (e_bitWriter (AppendTime e b)) < 8"
    and "e_values (AppendTime e b) = e_values e"
  using assms WriteBit_written [of "(e_bitBuffer e, e_bitWriter e)" b]
  by (auto simp: AppendTime_def encoder_stream_def split: prod.splits)

lemma AppendValue_stream:
  assumes "e_err e = None" and "length (e_bitWriter e) < 8"
  shows "encoder_stream (AppendValue e v)
         = encoder_stream e @ xor_code (xe_first (e_values e)) (xe_prevVal (e_values e)) v"
    and "length (e_bitWriter (AppendValue e v)) < 8"
    and "e_values (AppendValue e v) = \<lparr>xe_first = False, xe_prevVal = v\<rparr>"
  using assms
    write_bit_list_written [of "(e_bitBuffer e, e_bitWriter e)"
      "xor_code (xe_first (e_values e)) (xe_prevVal (e_values e)) v"]
  by (auto simp: AppendValue_def xe_Write_def encoder_stream_def split: prod.splits)

lemma call_encoder_list_stream:
  assumes "e_err e = None" and "length (e_bitWriter e) < 8" and "\<forall>c \<in> set cs. is_Append c"
  shows "encoder_stream (call_encoder_list e cs)
         = encoder_stream e @ calls_code (xe_first (e_values e)) (xe_prevVal (e_values e)) cs
         \<and> length (e_bitWriter (call_encoder_list e cs)) < 8"
  using assms unfolding call_encoder_list_def
proof (induction cs arbitrary: e)
  case Nil
  then show ?case by simp
next
  case (Cons c cs)
  show ?case
  proof (cases c)
    case (CallAppendTime b)
    have e1: "e_err (AppendTime e b) = None"
      using Cons.prems(1) by (rule AppendTime_err)
    from Cons.IH [OF e1 AppendTime_stream(2) [OF Cons.prems(1,2)]] Cons.prems(3)
    show ?thesis
      by (simp add: CallAppendTime AppendTime_stream [OF Cons.prems(1,2)])
  next
    case (CallAppendValue v)
    have e1: "e_err (AppendValue e v) = None"
      using Cons.prems(1) by (rule AppendValue_err)
    from Cons.IH [OF e1 AppendValue_stream(2) [OF Cons.prems(1,2)]] Cons.prems(3)
    show ?thesis
      by (simp add: CallAppendValue AppendValue_stream [OF Cons.prems(1,2)])
  next
    case CallReset
    with Cons.prems(3) show ?thesis by simp
  qed
qed

lemma Uint16_PutUInt16: "Uint16 (PutUInt16 a) = a"
  unfolding Uint16_def PutUInt16_def
  by (rule bit_word_eqI)
     (auto simp: bit_or_iff bit_ucast_iff bit_push_bit_iff bit_drop_bit_eq)

lemma HasValue_bit:
  "d_reader d = Some (b # r) \<Longrightarrow> HasValue d = (b, d\<lparr>d_reader := Some r\<rparr>)"
  by (simp add: HasValue_def ReadBit_def)

lemma Value_xor_code:
  assumes "d_reader d = Some (xor_code first prev v @ rest)"
    and "d_values d = Some \<lparr>xd_first = first, xd_val = prev\<rparr>"
  shows "Value d = (v, d\<lparr>d_values := Some \<lparr>xd_first = False, xd_val = v\<rparr>,
                          d_reader := Some rest\<rparr>)"
  using assms by (simp add: Value_def xd_Next_xor_code)

lemma Next_more:
  assumes "unat (d_startTime d) + unat (d_idx d) \<le> unat (d_endTime d)"
  shows "Next d = (True, d\<lparr>d_idx := d_idx d + 1\<rparr>)"
proof -
  have "unat (d_endTime d) < 2 ^ LENGTH(16)"
    by (rule unsigned_less)
  with assms have "unat (d_startTime d) + unat (d_idx d) < 2 ^ LENGTH(16)"
    by arith
  then have "unat (d_startTime d + d_idx d) = unat (d_startTime d) + unat (d_idx d)"
    by (simp only: unat_add_lem)
  with assms have "d_startTime d + d_idx d \<le> d_endTime d"
    by (simp add: word_le_nat_alt)
  then show ?thesis by (simp add: Next_def)
qed

lemma Next_done:
  assumes "unat (d_startTime d) + unat (d_idx d) = unat (d_endTime d) + 1"
    and "unat (d_endTime d) < 65535"
  shows "Next d = (False, d)"
proof -
  from assms have "unat (d_startTime d) + unat (d_idx d) < 2 ^ LENGTH(16)"
    by simp
  then have "unat (d_startTime d + d_idx d) = unat (d_startTime d) + unat (d_idx d)"
    by (simp only: unat_add_lem)
  with assms have "\<not> d_startTime d + d_idx d \<le> d_endTime d"
    by (simp add: word_le_nat_alt)
  then show ?thesis by (simp add: Next_def)
qed

lemma unat_idx_Suc:
  fixes i :: uint16
  assumes "unat i < 65535"
  shows "unat (i + 1) = unat i + 1"
proof -
  from assms have "unat i + unat (1 :: uint16) < 2 ^ LENGTH(16)" by simp
  then have "unat (i + 1) = unat i + unat (1 :: uint16)"
    by (simp only: unat_add_lem)
  then show ?thesis by simp
qed

lemma decode_slots_calls_code:
  assumes "d_reader d = Some (calls_code first prev (concat (map slot_calls xs)) @ rest)"
    and "d_values d = Some \<lparr>xd_first = first, xd_val = prev\<rparr>"
    and "unat (d_startTime d) + unat (d_idx d) + length xs = unat (d_endTime d) + 1"
    and "unat (d_endTime d) < 65535"
    and "length xs \<le> fuel"
  shows "\<exists>d'. decode_slots fuel d = Some (xs, d') \<and> d_err d' = d_err d
              \<and> d_reader d' = Some rest"
  using assms
proof (induction xs arbitrary: d first prev fuel)
  case Nil
  from Nil.prems(3,4) have "Next d = (False, d)"
    by (intro Next_done) simp_all
  with Nil.prems(1) show ?case
    by (cases fuel) simp_all
next
  case (Cons x xs)
  from Cons.prems(5) obtain f where fuel: "fuel = Suc f" and f: "length xs \<le> f"
    by (cases fuel) simp_all
  let ?d1 = "d\<lparr>d_idx := d_idx d + 1\<rparr>"
  have nxt: "Next d = (True, ?d1)"
    using Cons.prems(3) by (intro Next_more) simp
  have idx: "unat (d_idx d + 1) = unat (d_idx d) + 1"
    using Cons.prems(3,4) by (intro unat_idx_Suc) simp
  show ?case
  proof (cases x)
    case None
    let ?d2 = "?d1\<lparr>d_reader := Some (calls_code first prev (concat (map slot_calls xs)) @ rest)\<rparr>"
    have hv: "HasValue ?d1 = (False, ?d2)"
      using Cons.prems(1) None by (intro HasValue_bit) simp
    have "\<exists>d'. decode_slots f ?d2 = Some (xs, d') \<and> d_err d' = d_err ?d2
              \<and> d_reader d' = Some rest"
      using Cons.prems(2,3,4) idx f by (intro Cons.IH [of _ first prev]) simp_all
    then show ?thesis
      using nxt hv None fuel by auto
  next
    case (Some v)
    let ?r2 = "xor_code first prev v @ calls_code False v (concat (map slot_calls xs)) @ rest"
    let ?d2 = "?d1\<lparr>d_reader := Some ?r2\<rparr>"
    let ?d3 = "?d2\<lparr>d_values := Some \<lparr>xd_first = False, xd_val = v\<rparr>,
                  d_reader := Some (calls_code False v (concat (map slot_calls xs)) @ rest)\<rparr>"
    have hv: "HasValue ?d1 = (True, ?d2)"
      using Cons.prems(1) Some by (intro HasValue_bit) simp
    have val: "Value ?d2 = (v, ?d3)"
      using Cons.prems(2) by (intro Value_xor_code) simp_all
    have "\<exists>d'. decode_slots f ?d3 = Some (xs, d') \<and> d_err d' = d_err ?d3
              \<and> d_reader d' = Some rest"
      using Cons.prems(3,4) idx f by (intro Cons.IH [of _ False v]) simp_all
    then show ?thesis
      using nxt hv val Some fuel by auto
  qed
qed

lemma slot_calls_AppendTime:
  "length (filter is_AppendTime (concat (map slot_calls xs))) = length xs"
proof (induction xs)
  case Nil
  show ?case by simp
next
  case (Cons x xs)
  then show ?case by (cases x) simp_all
qed

lemma slot_calls_Append: "\<forall>c \<in> set (concat (map slot_calls xs)). is_Append c"
proof (induction xs)
  case Nil
  show ?case by simp
next
  case (Cons x xs)
  then show ?case by (cases x) simp_all
qed

lemma calls_code_nonempty:
  "filter is_AppendTime cs \<noteq> [] \<Longrightarrow> calls_code first prev cs \<noteq> []"
  by (induction first prev cs rule: calls_code.induct) simp_all

lemma New_encoder_fields:
  "e_err (NewTSDEncoder s) = None" "e_bitWriter (NewTSDEncoder s) = []"
  "e_bitBuffer (NewTSDEncoder s) = []" "e_count (NewTSDEncoder s) = 0"
  "e_startTime (NewTSDEncoder s) = s" "e_values (NewTSDEncoder s) = NewXOREncoder"
  by (simp_all add: NewTSDEncoder_def)

lemma Bytes_appends:
  assumes app: "\<forall>c \<in> set cs. is_Append c"
    and n: "n = length (filter is_AppendTime cs)"
    and nz: "(of_nat n :: uint16) \<noteq> 0"
  shows "\<exists>payload pad. fst (Bytes (call_encoder_list (NewTSDEncoder s) cs))
            = (Some (PutUInt16 s @ PutUInt16 (s + of_nat n - 1) @ payload), None)
          \<and> payload \<noteq> []
          \<and> bits_of_bytes payload = calls_code True 0 cs @ replicate pad False"
proof -
  let ?e = "call_encoder_list (NewTSDEncoder s) cs"
  let ?w = "(e_bitBuffer ?e, e_bitWriter ?e)"
  have err: "e_err ?e = None"
    by (simp add: call_encoder_list_err New_encoder_fields)
  have cnt: "e_count ?e = of_nat n"
    using call_encoder_list_count [of "NewTSDEncoder s" cs] n by (simp add: New_encoder_fields)
  have st: "e_startTime ?e = s"
    by (simp add: call_encoder_list_startTime New_encoder_fields)
  have stream: "encoder_stream ?e = calls_code True 0 cs" and pend: "length (e_bitWriter ?e) < 8"
    using call_encoder_list_stream [of "NewTSDEncoder s" cs] app
    by (simp_all add: New_encoder_fields encoder_stream_def written_def bits_of_bytes_def
        NewXOREncoder_def)
  from nz n have "filter is_AppendTime cs \<noteq> []" by auto
  then have "calls_code True 0 cs \<noteq> []" by (rule calls_code_nonempty)
  with stream have "written ?w \<noteq> []" by (simp add: encoder_stream_def)
  then have ne: "fst (fst (Flush ?w)) \<noteq> []" by (rule Flush_nonempty)
  have bits: "bits_of_bytes (fst (fst (Flush ?w)))
        = calls_code True 0 cs
          @ replicate (if snd ?w = [] then 0 else 8 - length (snd ?w)) False"
    using Flush_written [of ?w] pend stream by (simp add: encoder_stream_def)
  have "fst (Bytes ?e)
        = (Some (PutUInt16 s @ PutUInt16 (s + of_nat n - 1) @ fst (fst (Flush ?w))), None)"
    using nz by (simp add: Bytes_no_error [OF err] cnt st)
  with ne bits show ?thesis by blast
qed

lemma length_PutUInt16 [simp]: "length (PutUInt16 a) = 2"
  by (simp add: PutUInt16_def)

lemma Reset_decoder_block:
  assumes "payload \<noteq> []"
  shows "Reset_decoder d (PutUInt16 a @ PutUInt16 b @ payload)
         = d\<lparr>d_startTime := a, d_endTime := b, d_reader := Some (bits_of_bytes payload),
             d_values := Some NewXORDecoder, d_idx := 0, d_err := None\<rparr>"
proof -
  have "\<not> length (PutUInt16 a @ PutUInt16 b @ payload) \<le> 4"
    using assms by (cases payload) simp_all
  then show ?thesis
    by (simp add: Reset_decoder_def reset_decoder_def Uint16_PutUInt16)
qed

lemma unat_end_slot:
  fixes s :: uint16
  assumes "0 < n" and "unat s + n \<le> 65536"
  shows "unat (s + of_nat n - 1) = unat s + n - 1"
proof -
  obtain m where m: "n = Suc m" using assms(1) by (cases n) simp_all
  have eq: "s + of_nat n - 1 = s + of_nat m" by (simp add: m)
  have um: "unat (of_nat m :: uint16) = m"
    using assms(2) m by (simp add: unat_of_nat)
  then have "unat s + unat (of_nat m :: uint16) < 2 ^ LENGTH(16)"
    using assms(2) m by simp
  then have "unat (s + of_nat m) = unat s + unat (of_nat m :: uint16)"
    by (simp only: unat_add_lem)
  with um eq m show ?thesis by simp
qed

lemma of_nat_uint16_nonzero:
  assumes "0 < n" and "n < 65536"
  shows "(of_nat n :: uint16) \<noteq> 0"
proof
  assume "(of_nat n :: uint16) = 0"
  then have "unat (of_nat n :: uint16) = 0" by simp
  with assms show False by (simp add: unat_of_nat)
qed

lemma of_nat_uint16_zero_iff: "(of_nat n :: uint16) = 0 \<longleftrightarrow> n mod 65536 = 0"
proof -
  have "unat (of_nat n :: uint16) = n mod 65536"
    by (simp add: unat_of_nat)
  then show ?thesis
    by (metis unsigned_eq_0_iff)
qed

lemma DecodeTSDTime_block:
  "DecodeTSDTime (PutUInt16 a @ PutUInt16 b @ payload) = (a, b)"
  by (simp add: DecodeTSDTime_def Uint16_PutUInt16)

lemma call_decoder_err: "d_err d \<noteq> None \<Longrightarrow> d_err (call_decoder d c) \<noteq> None"
  by (cases c)
     (auto simp: Next_def HasValue_def Value_def split: option.splits prod.splits sum.splits)

lemma call_decoder_list_err:
  "d_err d \<noteq> None \<Longrightarrow> d_err (foldl call_decoder d cs) \<noteq> None"
proof (induction cs arbitrary: d)
  case Nil
  then show ?case by simp
next
  case (Cons c cs)
  have "d_err (call_decoder d c) \<noteq> None"
    using Cons.prems by (rule call_decoder_err)
  then have "d_err (foldl call_decoder (call_decoder d c) cs) \<noteq> None"
    by (rule Cons.IH)
  then show ?case by simp
qed




lemma HasValue_endTime: "d_endTime (snd (HasValue d)) = d_endTime d"
  by (simp add: HasValue_def split: option.splits prod.splits sum.splits)

lemma Value_endTime: "d_endTime (snd (Value d)) = d_endTime d"
  by (simp add: Value_def split: option.splits prod.splits)

lemma Next_last_slot:
  assumes "d_endTime d = 65535"
  shows "Next d = (True, d\<lparr>d_idx := d_idx d + 1\<rparr>)"
proof -
  have "unat (d_startTime d + d_idx d) < 2 ^ LENGTH(16)"
    by (rule unsigned_less)
  then have "unat (d_startTime d + d_idx d) \<le> unat (65535 :: uint16)"
    by simp
  then have "d_startTime d + d_idx d \<le> d_endTime d"
    by (simp only: assms word_le_nat_alt)
  then show ?thesis by (simp add: Next_def)
qed

lemma decode_slots_never_ends:
  "d_endTime d = 65535 \<Longrightarrow> decode_slots fuel d = None"
proof (induction fuel arbitrary: d)
  case 0
  then show ?case by (simp add: Next_last_slot)
next
  case (Suc fuel)
  let ?d1 = "d\<lparr>d_idx := d_idx d + 1\<rparr>"
  obtain h d2 where hv: "HasValue ?d1 = (h, d2)" by (cases "HasValue ?d1")
  have e2: "d_endTime d2 = 65535"
    using HasValue_endTime [of ?d1] hv Suc.prems by simp
  obtain v d3 where val: "Value d2 = (v, d3)" by (cases "Value d2")
  have e3: "d_endTime d3 = 65535"
    using Value_endTime [of d2] val e2 by simp
  show ?case
    using Suc.IH [OF e2] Suc.IH [OF e3] hv val
    by (cases h) (simp_all add: Next_last_slot [OF Suc.prems])
qed

lemma last_slot_block:
  "d_endTime (Reset_decoder (NewTSDDecoder [])
      (slice_bytes (fst (fst (Bytes (encode_slots 65535 [Some 1])))))) = 65535"
  by code_simp

section \<open>Field writes and the flush walk\<close>

lemma then_run_simps [simp]:
  "then_run (Done, c) f = f c"
  "then_run (Failed e, c) f = (Failed e, c)"
  "then_run (Panicked, c) f = (Panicked, c)"
  by (simp_all add: then_run_def)

lemma then_run_assoc:
  "then_run (then_run r f) g = then_run r (\<lambda>c. then_run (f c) g)"
  by (cases r; cases "fst r") (auto simp: then_run_def)

lemma then_run_return [simp]: "then_run r (\<lambda>c. (Done, c)) = r"
  by (cases r; cases "fst r") (auto simp: then_run_def)


lemma write_field_Failed:
  assumes "write_field sz p t v c = (Failed e, c')"
  shows "md_writes (w_md c') = md_writes (w_md c)"
    and "md_allocatedPageFailures (w_md c') = md_allocatedPageFailures (w_md c) + 1"
    and "w_tStore c' = w_tStore c"
    and "w_fieldIDIdx c' = w_fieldIDIdx c"
    and "w_fieldIDIdx c < length (FieldIDs p)"
    and "w_tStore c (FieldIDs p ! w_fieldIDIdx c) = None"
    and "fst (AllocPage (w_md c)) = Some e"
  using assms
  by (auto simp: write_field_def writeLinField_def AllocPage_def
      split: if_splits prod.splits sum.splits option.splits list.splits)

lemma write_field_Done:
  assumes "write_field sz p t v c = (Done, c')"
  shows "md_writes (w_md c') = md_writes (w_md c) @ [(FieldIDs p ! w_fieldIDIdx c, t, v)]"
    and "md_allocatedPageFailures (w_md c') = md_allocatedPageFailures (w_md c)"
    and "w_fieldIDIdx c' = w_fieldIDIdx c + 1"
    and "w_fieldIDIdx c < length (FieldIDs p)"
    and "w_written c'"
    and "\<exists>fs. w_tStore c' (FieldIDs p ! w_fieldIDIdx c) = Some fs \<and> (t, SlotIndex p, v) \<in> set fs"
    and "\<And>f fs. w_tStore c f = Some fs \<Longrightarrow> \<exists>fs'. w_tStore c' f = Some fs' \<and> set fs \<subseteq> set fs'"
  using assms
  by (auto simp: write_field_def writeLinField_def AllocPage_def afterWrite_def
      split: if_splits prod.splits sum.splits option.splits list.splits)


lemma with_ids_Nil [simp]: "with_ids ids idx [] = []"
  by (simp add: with_ids_def)

lemma with_ids_Cons:
  "idx < length ids \<Longrightarrow> with_ids ids idx (w # ws) = (ids ! idx, w) # with_ids ids (Suc idx) ws"
  by (simp add: with_ids_def flip: Cons_nth_drop_Suc)


lemma run_plan_Failed:
  assumes "run_plan sz p ws c = (Failed e, c')"
  shows "\<exists>k < length ws.
           md_writes (w_md c') = md_writes (w_md c)
                                   @ with_ids (FieldIDs p) (w_fieldIDIdx c) (take k ws)
         \<and> md_allocatedPageFailures (w_md c') = md_allocatedPageFailures (w_md c) + 1
         \<and> w_fieldIDIdx c + k < length (FieldIDs p)
         \<and> w_tStore c' (FieldIDs p ! (w_fieldIDIdx c + k)) = None
         \<and> (\<forall>i < k. \<exists>fs. w_tStore c' (FieldIDs p ! (w_fieldIDIdx c + i)) = Some fs
                        \<and> (fst (ws ! i), SlotIndex p, snd (ws ! i)) \<in> set fs)
         \<and> (\<forall>f fs. w_tStore c f = Some fs
                \<longrightarrow> (\<exists>fs'. w_tStore c' f = Some fs' \<and> set fs \<subseteq> set fs'))"
  using assms
proof (induction ws arbitrary: c)
  case Nil
  then show ?case by simp
next
  case (Cons w ws)
  obtain r c1 where w1: "write_field sz p (fst w) (snd w) c = (r, c1)"
    by (cases "write_field sz p (fst w) (snd w) c")
  show ?case
  proof (cases r)
    case Done
    with w1 Cons.prems have r: "run_plan sz p ws c1 = (Failed e, c')" by simp
    note d = write_field_Done [OF w1 [unfolded Done]]
    from Cons.IH [OF r] obtain k where k: "k < length ws"
      and wr: "md_writes (w_md c') = md_writes (w_md c1)
                 @ with_ids (FieldIDs p) (w_fieldIDIdx c1) (take k ws)"
      and fl: "md_allocatedPageFailures (w_md c') = md_allocatedPageFailures (w_md c1) + 1"
      and ix: "w_fieldIDIdx c1 + k < length (FieldIDs p)"
      and no: "w_tStore c' (FieldIDs p ! (w_fieldIDIdx c1 + k)) = None"
      and ws: "\<forall>i < k. \<exists>fs. w_tStore c' (FieldIDs p ! (w_fieldIDIdx c1 + i)) = Some fs
                        \<and> (fst (ws ! i), SlotIndex p, snd (ws ! i)) \<in> set fs"
      and mono: "\<forall>f fs. w_tStore c1 f = Some fs
                \<longrightarrow> (\<exists>fs'. w_tStore c' f = Some fs' \<and> set fs \<subseteq> set fs')"
      by blast
    have first: "\<exists>fs. w_tStore c' (FieldIDs p ! w_fieldIDIdx c) = Some fs
                  \<and> (fst w, SlotIndex p, snd w) \<in> set fs"
      using d(6) mono by blast
    have written: "\<forall>i < Suc k. \<exists>fs. w_tStore c' (FieldIDs p ! (w_fieldIDIdx c + i)) = Some fs
                        \<and> (fst ((w # ws) ! i), SlotIndex p, snd ((w # ws) ! i)) \<in> set fs"
    proof (intro allI impI)
      fix i assume "i < Suc k"
      show "\<exists>fs. w_tStore c' (FieldIDs p ! (w_fieldIDIdx c + i)) = Some fs
                        \<and> (fst ((w # ws) ! i), SlotIndex p, snd ((w # ws) ! i)) \<in> set fs"
      proof (cases i)
        case 0
        with first show ?thesis by simp
      next
        case (Suc j)
        with \<open>i < Suc k\<close> ws d(3) show ?thesis by simp
      qed
    qed
    have mono': "\<forall>f fs. w_tStore c f = Some fs
                \<longrightarrow> (\<exists>fs'. w_tStore c' f = Some fs' \<and> set fs \<subseteq> set fs')"
    proof (intro allI impI)
      fix f fs assume "w_tStore c f = Some fs"
      from d(7) [OF this] obtain fs1 where "w_tStore c1 f = Some fs1" "set fs \<subseteq> set fs1"
        by blast
      with mono show "\<exists>fs'. w_tStore c' f = Some fs' \<and> set fs \<subseteq> set fs'"
        by (meson subset_trans)
    qed
    have "Suc k < length (w # ws)" using k by simp
    moreover have "md_writes (w_md c') = md_writes (w_md c)
                     @ with_ids (FieldIDs p) (w_fieldIDIdx c) (take (Suc k) (w # ws))"
      using wr d(1,3,4) by (simp add: with_ids_Cons)
    moreover have "md_allocatedPageFailures (w_md c') = md_allocatedPageFailures (w_md c) + 1"
      using fl d(2) by simp
    moreover have "w_fieldIDIdx c + Suc k < length (FieldIDs p)"
      using ix d(3) by simp
    moreover have "w_tStore c' (FieldIDs p ! (w_fieldIDIdx c + Suc k)) = None"
      using no d(3) by simp
    ultimately show ?thesis
      using written mono' by blast
  next
    case (Failed e')
    with w1 Cons.prems have eq: "e' = e" "c1 = c'" by simp_all
    note f = write_field_Failed [OF w1 [unfolded Failed eq]]
    have "0 < length (w # ws)" by simp
    moreover have "md_writes (w_md c') = md_writes (w_md c)
                     @ with_ids (FieldIDs p) (w_fieldIDIdx c) (take 0 (w # ws))"
      using f(1) by simp
    moreover have "w_tStore c' (FieldIDs p ! (w_fieldIDIdx c + 0)) = None"
      using f(3,6) by simp
    moreover have "w_fieldIDIdx c + 0 < length (FieldIDs p)"
      using f(5) by simp
    ultimately show ?thesis
      using f(2,3) by (intro exI [of _ 0]) simp
  next
    case Panicked
    with w1 Cons.prems show ?thesis by simp
  qed
qed


lemma run_plan_append:
  "run_plan sz p (ws @ ws') c = then_run (run_plan sz p ws c) (run_plan sz p ws')"
proof (induction ws arbitrary: c)
  case Nil
  show ?case by simp
next
  case (Cons w ws)
  have "run_plan sz p (ws @ ws') = (\<lambda>c. then_run (run_plan sz p ws c) (run_plan sz p ws'))"
    by (rule ext) (rule Cons.IH)
  then show ?case by (simp add: then_run_assoc)
qed

lemma run_plan_Nil_fun: "run_plan sz p [] = (\<lambda>c. (Done, c))"
  by (rule ext) simp

lemma write_simple_fields_plan:
  "write_simple_fields sz p fs = run_plan sz p (simple_plan fs)"
proof (induction fs)
  case Nil
  show ?case by (rule ext) simp
next
  case (Cons f fs)
  show ?case
    by (rule ext, cases "sf_Type f") (simp_all add: Cons.IH)
qed

lemma write_buckets_plan:
  "write_buckets sz p vals idx bounds =
     (\<lambda>c. then_run (run_plan sz p (map (\<lambda>v. (HistogramField, v))
                                     (take (length bounds) (drop idx vals))) c)
       (\<lambda>c'. if bounds = [] \<or> idx + length bounds \<le> length vals then (Done, c')
             else (Panicked, c')))"
proof (induction bounds arbitrary: idx)
  case Nil
  show ?case by (rule ext) simp
next
  case (Cons b bounds)
  show ?case
  proof (rule ext)
    fix c
    show "write_buckets sz p vals idx (b # bounds) c =
      then_run (run_plan sz p (map (\<lambda>v. (HistogramField, v))
                                     (take (length (b # bounds)) (drop idx vals))) c)
       (\<lambda>c'. if b # bounds = [] \<or> idx + length (b # bounds) \<le> length vals then (Done, c')
             else (Panicked, c'))"
    proof (cases "idx < length vals")
      case True
      then have d: "drop idx vals = vals ! idx # drop (Suc idx) vals"
        by (simp add: Cons_nth_drop_Suc)
      have "(bounds = [] \<or> Suc idx + length bounds \<le> length vals)
          \<longleftrightarrow> idx + length (b # bounds) \<le> length vals"
        using True by (cases bounds) auto
      then show ?thesis
        using True by (simp add: d Cons.IH then_run_assoc)
    next
      case False
      then show ?thesis by simp
    qed
  qed
qed

lemma write_compound_field_plan:
  "write_compound_field sz p cf c =
     then_run (run_plan sz p (compound_plan cf) c)
       (\<lambda>c'. if length (cf_ExplicitBounds cf) \<le> length (cf_Values cf) then (Done, c')
             else (Panicked, c'))"
proof -
  let ?h = "map (\<lambda>v. (HistogramField, v)) (take (length (cf_ExplicitBounds cf)) (cf_Values cf))"
  have ok: "(cf_ExplicitBounds cf = [] \<or> length (cf_ExplicitBounds cf) \<le> length (cf_Values cf))
            \<longleftrightarrow> length (cf_ExplicitBounds cf) \<le> length (cf_Values cf)"
    by auto
  have bk: "write_buckets sz p (cf_Values cf) 0 (cf_ExplicitBounds cf)
            = (\<lambda>c. then_run (run_plan sz p ?h c)
                 (\<lambda>c'. if length (cf_ExplicitBounds cf) \<le> length (cf_Values cf) then (Done, c')
                       else (Panicked, c')))"
    by (simp add: write_buckets_plan ok)
  show ?thesis
    by (simp add: write_compound_field_def compound_plan_def bk run_plan_append then_run_assoc)
qed

lemma WriteWithoutLock_plan:
  "WriteWithoutLock sz md p =
     (case run_plan sz p (point_plan p) (begin_write sz md p) of
        (Done, c') \<Rightarrow>
          if values_ok p then (Done, store_back p (end_write p c'))
          else (Panicked, store_back p c')
      | (r, c') \<Rightarrow> (r, store_back p c'))"
proof (cases "p_CompoundField (Proto p)")
  case None
  then have ok: "values_ok p" by (simp add: values_ok_def)
  obtain r c1 where r: "run_plan sz p (simple_plan (p_SimpleFields (Proto p))) (begin_write sz md p) = (r, c1)"
    by (cases "run_plan sz p (simple_plan (p_SimpleFields (Proto p))) (begin_write sz md p)")
  show ?thesis
    using None r ok
    by (cases r) (simp_all add: WriteWithoutLock_def point_plan_def write_simple_fields_plan)
next
  case (Some cf)
  obtain r c1 where r: "run_plan sz p (simple_plan (p_SimpleFields (Proto p))) (begin_write sz md p) = (r, c1)"
    by (cases "run_plan sz p (simple_plan (p_SimpleFields (Proto p))) (begin_write sz md p)")
  obtain r2 c2 where r2: "run_plan sz p (compound_plan cf) c1 = (r2, c2)"
    by (cases "run_plan sz p (compound_plan cf) c1")
  show ?thesis
    using Some r r2
    by (cases r; cases r2)
       (simp_all add: WriteWithoutLock_def point_plan_def write_simple_fields_plan values_ok_def
         run_plan_append write_compound_field_plan)
qed

lemma write_field_buf:
  "write_field sz p t v c = (r, c') \<Longrightarrow> set (md_buf (w_md c')) \<subseteq> set (md_buf (w_md c))"
  by (auto simp: write_field_def writeLinField_def AllocPage_def afterWrite_def
      split: if_splits prod.splits sum.splits option.splits list.splits)

lemma run_plan_Failed_error:
  assumes "run_plan sz p ws c = (Failed e, c')"
  shows "e = ErrAllocPage \<or> Some e \<in> set (md_buf (w_md c))"
  using assms
proof (induction ws arbitrary: c)
  case Nil
  then show ?case by simp
next
  case (Cons w ws)
  obtain r c1 where w1: "write_field sz p (fst w) (snd w) c = (r, c1)"
    by (cases "write_field sz p (fst w) (snd w) c")
  show ?case
  proof (cases r)
    case Done
    with w1 Cons.prems have "run_plan sz p ws c1 = (Failed e, c')" by simp
    from Cons.IH [OF this] write_field_buf [OF w1] show ?thesis by blast
  next
    case (Failed e')
    with w1 Cons.prems have "e' = e" by simp
    with w1 Failed have "fst (AllocPage (w_md c)) = Some e"
      by (auto dest: write_field_Failed(7))
    then show ?thesis
      by (auto simp: AllocPage_def split: list.splits)
  next
    case Panicked
    with w1 Cons.prems show ?thesis by simp
  qed
qed

lemma map_of_bucket_Put: "map_of (bucket_Put b k v) k = Some v"
  by (induction b k v rule: bucket_Put.induct) simp_all

lemma begin_write_fields:
  "md_writes (w_md (begin_write sz md p)) = md_writes md"
  "md_allocatedPageFailures (w_md (begin_write sz md p)) = md_allocatedPageFailures md"
  "md_buf (w_md (begin_write sz md p)) = md_buf md"
  "w_fieldIDIdx (begin_write sz md p) = 0"
  by (simp_all add: begin_write_def getOrCreateMStore_def GetOrCreateTStore_def
      split: option.splits prod.splits)

lemma store_back_fields:
  "md_writes (store_back p c) = md_writes (w_md c)"
  "md_allocatedPageFailures (store_back p c) = md_allocatedPageFailures (w_md c)"
  "\<exists>ms. bucket_Get (md_mStores (store_back p c)) (MetricID p) = Some ms
        \<and> ms_tStores ms (SeriesID p) = Some (w_tStore c)"
  by (simp_all add: store_back_def bucket_Get_def map_of_bucket_Put)


lemmas write_defs =
  WriteWithoutLock_def begin_write_def end_write_def store_back_def getOrCreateMStore_def
  GetOrCreateTStore_def bucket_Get_def newMetricStore_def NewMemoryDatabase_def
  write_compound_field_def write_field_def writeLinField_def AllocPage_def afterWrite_def
  SetSlot_def AddField_def histogram_point_def unit_sizes_def

lemma histogram_point_fails:
  "fst (WriteWithoutLock unit_sizes (NewMemoryDatabase [None, None, None]) histogram_point)
     = Failed ErrAllocPage"
  by (simp add: write_defs)

lemma histogram_point_fails_writes:
  "md_writes (snd (WriteWithoutLock unit_sizes (NewMemoryDatabase [None, None, None])
                     histogram_point))
     = [(11, MinField, 1), (12, MinField, 9), (13, SumField, 20)]"
  by (simp add: write_defs)






lemma flush_visitor_eq:
  "flush_visitor key val fl
     = (fl_flush_error fl key, fl\<lparr>fl_calls := fl_calls fl @ [CallFlushMetrics key]\<rparr>)"
  by (simp add: flush_visitor_def FlushMetricsDataTo_def split: option.splits)

lemma walk_all_flushed:
  assumes "\<forall>k \<in> set (map fst es). fl_flush_error fl k = None"
  shows "WalkEntry es flush_visitor fl
         = (None, fl\<lparr>fl_calls := fl_calls fl @ map CallFlushMetrics (map fst es)\<rparr>)"
  using assms
proof (induction es arbitrary: fl)
  case Nil
  show ?case by simp
next
  case (Cons a es)
  obtain k v where a: "a = (k, v)" by (cases a)
  let ?fl = "fl\<lparr>fl_calls := fl_calls fl @ [CallFlushMetrics k]\<rparr>"
  have hv: "flush_visitor k v fl = (None, ?fl)"
    using Cons.prems by (simp add: a flush_visitor_eq)
  have "\<forall>j \<in> set (map fst es). fl_flush_error ?fl j = None"
    using Cons.prems by simp
  from Cons.IH [OF this] show ?case
    by (simp add: a hv)
qed

lemma walk_first_failure:
  assumes "map fst es = ks @ k # ks'" and "\<forall>j \<in> set ks. fl_flush_error fl j = None"
    and "fl_flush_error fl k = Some e"
  shows "WalkEntry es flush_visitor fl
         = (Some e, fl\<lparr>fl_calls := fl_calls fl @ map CallFlushMetrics (ks @ [k])\<rparr>)"
  using assms
proof (induction ks arbitrary: es fl)
  case Nil
  then obtain v es' where es: "es = (k, v) # es'" by (cases es) auto
  have hv: "flush_visitor k v fl = (Some e, fl\<lparr>fl_calls := fl_calls fl @ [CallFlushMetrics k]\<rparr>)"
    using Nil.prems(3) by (simp add: flush_visitor_eq)
  show ?case by (simp add: es hv)
next
  case (Cons j ks)
  then obtain v es' where es: "es = (j, v) # es'" and rest: "map fst es' = ks @ k # ks'"
    by (cases es) auto
  let ?fl = "fl\<lparr>fl_calls := fl_calls fl @ [CallFlushMetrics j]\<rparr>"
  have hv: "flush_visitor j v fl = (None, ?fl)"
    using Cons.prems(2) by (simp add: flush_visitor_eq)
  have "WalkEntry es' flush_visitor ?fl
         = (Some e, ?fl\<lparr>fl_calls := fl_calls ?fl @ map CallFlushMetrics (ks @ [k])\<rparr>)"
    using rest Cons.prems(2,3) by (intro Cons.IH) simp_all
  then show ?case
    by (simp add: es hv)
qed

lemma write_failure_state:
  assumes "fst (WriteWithoutLock sz md p) = Failed e"
    and "md' = snd (WriteWithoutLock sz md p)"
  shows "\<exists>k < length (point_plan p).
           md_writes md' = md_writes md @ with_ids (FieldIDs p) 0 (take k (point_plan p))
         \<and> md_allocatedPageFailures md' = md_allocatedPageFailures md + 1
         \<and> (e = ErrAllocPage \<or> Some e \<in> set (md_buf md))
         \<and> k < length (FieldIDs p)
         \<and> (\<exists>ms ts. bucket_Get (md_mStores md') (MetricID p) = Some ms
                \<and> ms_tStores ms (SeriesID p) = Some ts
                \<and> ts (FieldIDs p ! k) = None
                \<and> (\<forall>i < k. \<exists>fs. ts (FieldIDs p ! i) = Some fs
                       \<and> (fst (point_plan p ! i), SlotIndex p, snd (point_plan p ! i)) \<in> set fs))"
proof -
  let ?c0 = "begin_write sz md p"
  obtain r c' where run: "run_plan sz p (point_plan p) ?c0 = (r, c')"
    by (cases "run_plan sz p (point_plan p) ?c0")
  from assms(1) run have r: "r = Failed e"
    by (cases r) (simp_all add: WriteWithoutLock_plan split: if_splits)
  with run assms(2) have md': "md' = store_back p c'"
    by (simp add: WriteWithoutLock_plan)
  from run_plan_Failed [OF run [unfolded r]] obtain k where k: "k < length (point_plan p)"
    and wr: "md_writes (w_md c') = md_writes (w_md ?c0)
               @ with_ids (FieldIDs p) (w_fieldIDIdx ?c0) (take k (point_plan p))"
    and fl: "md_allocatedPageFailures (w_md c') = md_allocatedPageFailures (w_md ?c0) + 1"
    and ix: "w_fieldIDIdx ?c0 + k < length (FieldIDs p)"
    and no: "w_tStore c' (FieldIDs p ! (w_fieldIDIdx ?c0 + k)) = None"
    and ws: "\<forall>i < k. \<exists>fs. w_tStore c' (FieldIDs p ! (w_fieldIDIdx ?c0 + i)) = Some fs
                \<and> (fst (point_plan p ! i), SlotIndex p, snd (point_plan p ! i)) \<in> set fs"
    by blast
  from store_back_fields(3) [of p c'] obtain ms where
    ms: "bucket_Get (md_mStores md') (MetricID p) = Some ms"
        "ms_tStores ms (SeriesID p) = Some (w_tStore c')"
    unfolding md' by blast
  have err: "e = ErrAllocPage \<or> Some e \<in> set (md_buf md)"
    using run_plan_Failed_error [OF run [unfolded r]] by (simp add: begin_write_fields)
  have "md_writes md' = md_writes md @ with_ids (FieldIDs p) 0 (take k (point_plan p))"
    using wr by (simp add: md' store_back_fields begin_write_fields)
  moreover have "md_allocatedPageFailures md' = md_allocatedPageFailures md + 1"
    using fl by (simp add: md' store_back_fields begin_write_fields)
  moreover have "k < length (FieldIDs p)"
    using ix by (simp add: begin_write_fields)
  moreover have "w_tStore c' (FieldIDs p ! k) = None"
    using no by (simp add: begin_write_fields)
  moreover have "\<forall>i < k. \<exists>fs. w_tStore c' (FieldIDs p ! i) = Some fs
                \<and> (fst (point_plan p ! i), SlotIndex p, snd (point_plan p ! i)) \<in> set fs"
    using ws by (simp add: begin_write_fields)
  ultimately show ?thesis
    using k ms err by blast
qed

lemma write_failure_returned:
  assumes "k < length (point_plan p)"
    and "run_plan sz p (take k (point_plan p)) (begin_write sz md p) = (Done, ck)"
    and "write_field sz p (fst (point_plan p ! k)) (snd (point_plan p ! k)) ck = (Failed e, c')"
  shows "WriteWithoutLock sz md p = (Failed e, store_back p c')"
    and "md_writes (store_back p c') = md_writes (w_md ck)"
    and "w_tStore c' = w_tStore ck"
proof -
  have "point_plan p = take k (point_plan p) @ point_plan p ! k # drop (Suc k) (point_plan p)"
    using assms(1) by (simp add: id_take_nth_drop [symmetric])
  then have "run_plan sz p (point_plan p) (begin_write sz md p)
             = then_run (run_plan sz p (take k (point_plan p)) (begin_write sz md p))
                 (run_plan sz p (point_plan p ! k # drop (Suc k) (point_plan p)))"
    by (metis run_plan_append)
  then have "run_plan sz p (point_plan p) (begin_write sz md p) = (Failed e, c')"
    by (simp add: assms(2,3))
  then show "WriteWithoutLock sz md p = (Failed e, store_back p c')"
    by (simp add: WriteWithoutLock_plan)
  show "md_writes (store_back p c') = md_writes (w_md ck)"
    using write_field_Failed(1) [OF assms(3)] by (simp add: store_back_fields)
  show "w_tStore c' = w_tStore ck"
    using assms(3) by (rule write_field_Failed(3))
qed




section \<open>The claims on the TSD codec\<close>

text \<open>
  C1 (round trip), as amended. For every non-empty sequence of slots, each absent or present
  with a 64-bit value, fed to an encoder with start slot \<open>startTime\<close> (one \<open>AppendTime\<close>
  for each slot, one \<open>AppendValue\<close> for each present slot), with
  \<open>startTime + length slots \<le> 65535\<close>: a decoder \<open>Reset\<close> on the block of \<open>Bytes()\<close> and
  run through \<open>Next()\<close>, \<open>HasValue()\<close> and \<open>Value()\<close> in lockstep stops after
  \<open>length slots\<close> slots, has no error, and has read the same presence bits and the same
  values in the same order. Whatever state the (pooled) decoder \<open>d\<close> had before.
\<close>

theorem tsd_round_trip:
  assumes "slots \<noteq> []" and "unat startTime + length slots \<le> 65535"
    and "length slots \<le> fuel"
  shows "map_option (\<lambda>(ys, d'). (ys, Error d'))
           (decode_slots fuel
              (Reset_decoder d (slice_bytes (fst (fst (Bytes (encode_slots startTime slots)))))))
         = Some (slots, None)"
proof -
  let ?cs = "concat (map slot_calls slots)"
  let ?n = "length slots"
  have n: "?n = length (filter is_AppendTime ?cs)"
    by (simp add: slot_calls_AppendTime)
  have pos: "0 < ?n" using assms(1) by simp
  have nz: "(of_nat ?n :: uint16) \<noteq> 0"
    using pos assms(2) by (intro of_nat_uint16_nonzero) simp_all
  from Bytes_appends [OF slot_calls_Append n nz, of startTime]
  obtain payload pad where
    blk: "fst (Bytes (encode_slots startTime slots))
          = (Some (PutUInt16 startTime @ PutUInt16 (startTime + of_nat ?n - 1) @ payload), None)"
    and ne: "payload \<noteq> []"
    and bits: "bits_of_bytes payload = calls_code True 0 ?cs @ replicate pad False"
    unfolding encode_slots_def by blast
  let ?d0 = "Reset_decoder d (slice_bytes (fst (fst (Bytes (encode_slots startTime slots)))))"
  have d0: "?d0 = d\<lparr>d_startTime := startTime, d_endTime := startTime + of_nat ?n - 1,
                    d_reader := Some (calls_code True 0 ?cs @ replicate pad False),
                    d_values := Some NewXORDecoder, d_idx := 0, d_err := None\<rparr>"
    by (simp add: blk slice_bytes_def Reset_decoder_block [OF ne] bits)
  have ue: "unat (startTime + of_nat ?n - 1) = unat startTime + ?n - 1"
    using pos assms(2) by (intro unat_end_slot) simp_all
  have "\<exists>d'. decode_slots fuel ?d0 = Some (slots, d') \<and> d_err d' = d_err ?d0
            \<and> d_reader d' = Some (replicate pad False)"
    using pos assms(2,3) ue
    by (intro decode_slots_calls_code [of _ True 0]) (simp_all add: d0 NewXORDecoder_def)
  then obtain d' where "decode_slots fuel ?d0 = Some (slots, d')" and "d_err d' = None"
    by (auto simp: d0)
  then show ?thesis by (simp add: Error_def)
qed

theorem tsd_round_trip_witness:
  "map_option (\<lambda>(ys, d'). (ys, Error d'))
     (decode_slots 3
        (Reset_decoder (NewTSDDecoder [])
           (slice_bytes (fst (fst (Bytes (encode_slots 10 [Some 42, None, Some 43])))))))
   = Some ([Some 42, None, Some 43], None)"
proof -
  let ?slots = "[Some 42, None, Some 43] :: uint64 option list"
  have h1: "?slots \<noteq> []" by simp
  have h2: "unat (10 :: uint16) + length ?slots \<le> 65535" by simp
  have h3: "length ?slots \<le> 3" by simp
  from tsd_round_trip [OF h1 h2 h3] show ?thesis .
qed

text \<open>
  The claim as stated fails at both ends of its range. One present slot at the last uint16
  slot, 65535: the header's end slot is 65535, no slot index is greater, so \<open>Next()\<close> never
  returns false and the decoding loop does not end, whatever the fuel. And the empty
  sequence: \<open>Bytes()\<close> returns no block, \<open>Reset\<close> on it sets the error, and a new decoder
  (start and end slot 0) still yields one absent slot.
\<close>

theorem tsd_round_trip_counterexample:
  "(\<forall>fuel. decode_slots fuel
       (Reset_decoder (NewTSDDecoder [])
          (slice_bytes (fst (fst (Bytes (encode_slots 65535 [Some 1])))))) = None)
   \<and> fst (Bytes (encode_slots 0 [])) = (None, None)
   \<and> map_option (\<lambda>(ys, d'). (ys, Error d'))
        (decode_slots 1
           (Reset_decoder (NewTSDDecoder []) (slice_bytes (fst (fst (Bytes (encode_slots 0 [])))))))
      = Some ([None], Some ErrBadData)"
proof -
  have "\<forall>fuel. decode_slots fuel
       (Reset_decoder (NewTSDDecoder [])
          (slice_bytes (fst (fst (Bytes (encode_slots 65535 [Some 1])))))) = None"
    using decode_slots_never_ends [OF last_slot_block] by blast
  moreover have "fst (Bytes (encode_slots 0 [])) = (None, None)"
    by code_simp
  moreover have "map_option (\<lambda>(ys, d'). (ys, Error d'))
        (decode_slots 1
           (Reset_decoder (NewTSDDecoder []) (slice_bytes (fst (fst (Bytes (encode_slots 0 [])))))))
      = Some ([None], Some ErrBadData)"
    by code_simp
  ultimately show ?thesis by blast
qed

text \<open>
  C2 (empty-block law): an encoder on which \<open>AppendTime\<close> was never called, whatever
  \<open>AppendValue\<close> (and \<open>Reset\<close>) calls were made, returns \<open>(nil, nil)\<close> from \<open>Bytes()\<close>:
  a nil slice and a nil error, never a non-nil block.
\<close>

theorem empty_block_law:
  assumes "\<forall>c \<in> set cs. \<not> is_AppendTime c"
  shows "fst (Bytes (call_encoder_list (NewTSDEncoder startTime) cs)) = (None, None)"
proof -
  let ?e = "call_encoder_list (NewTSDEncoder startTime) cs"
  have err0: "e_err (NewTSDEncoder startTime) = None"
    by (simp add: NewTSDEncoder_def)
  have "filter is_AppendTime cs = []"
    using assms by (simp add: filter_empty_conv)
  then have "e_count ?e = 0"
    using call_encoder_list_count [OF err0, of cs] by (simp add: NewTSDEncoder_def)
  moreover have "e_err ?e = None"
    using err0 by (rule call_encoder_list_err)
  ultimately show ?thesis
    by (simp add: Bytes_no_error)
qed

theorem empty_block_law_witness:
  "fst (Bytes (call_encoder_list (NewTSDEncoder 10)
                   [CallAppendValue 7, CallReset, CallAppendValue 9])) = (None, None)"
proof -
  have h: "\<forall>c \<in> set [CallAppendValue 7, CallReset, CallAppendValue 9]. \<not> is_AppendTime c"
    by simp
  from empty_block_law [OF h, of 10] show ?thesis .
qed

text \<open>
  C3 (header correctness), as amended. For an encoder with start slot \<open>startTime\<close> that took
  only \<open>AppendTime\<close> and \<open>AppendValue\<close> calls, \<open>n\<close> of them \<open>AppendTime\<close> with \<open>n\<close> not a
  multiple of 65536: \<open>Bytes()\<close> returns a block and no error, bytes 0-1 of the block are
  \<open>startTime\<close> and bytes 2-3 the end slot \<open>startTime + n - 1\<close> (uint16 arithmetic), both
  little-endian, and a decoder \<open>Reset\<close> on the block has no error and reports
  \<open>StartTime() = startTime\<close> and \<open>EndTime() = startTime + n - 1\<close>.
\<close>

theorem header_correctness:
  assumes "\<forall>c \<in> set cs. is_Append c"
    and "n = length (filter is_AppendTime cs)"
    and "n mod 65536 \<noteq> 0"
    and "r = fst (Bytes (call_encoder_list (NewTSDEncoder startTime) cs))"
    and "endTime = startTime + of_nat n - 1"
  shows "fst r \<noteq> None \<and> snd r = None
         \<and> take 4 (slice_bytes (fst r))
             = [ucast startTime, ucast (drop_bit 8 startTime),
                ucast endTime, ucast (drop_bit 8 endTime)]
         \<and> Error (Reset_decoder d (slice_bytes (fst r))) = None
         \<and> StartTime (Reset_decoder d (slice_bytes (fst r))) = startTime
         \<and> EndTime (Reset_decoder d (slice_bytes (fst r))) = endTime"
proof -
  have nz: "(of_nat n :: uint16) \<noteq> 0"
    using assms(3) by (simp add: of_nat_uint16_zero_iff)
  from Bytes_appends [OF assms(1,2) nz, of startTime] assms(4,5)
  obtain payload where
    blk: "r = (Some (PutUInt16 startTime @ PutUInt16 endTime @ payload), None)"
    and ne: "payload \<noteq> []"
    by auto
  have hdr: "take 4 (PutUInt16 startTime @ PutUInt16 endTime @ payload)
             = [ucast startTime, ucast (drop_bit 8 startTime),
                ucast endTime, ucast (drop_bit 8 endTime)]"
    by (simp add: PutUInt16_def)
  show ?thesis
    using hdr by (simp add: blk slice_bytes_def Reset_decoder_block [OF ne] Error_def
        StartTime_def EndTime_def)
qed

theorem header_correctness_witness:
  "fst (fst (Bytes (call_encoder_list (NewTSDEncoder 10)
                [CallAppendTime True, CallAppendValue 42, CallAppendTime False]))) \<noteq> None
   \<and> EndTime (Reset_decoder (NewTSDDecoder [])
         (slice_bytes (fst (fst (Bytes (call_encoder_list (NewTSDEncoder 10)
                [CallAppendTime True, CallAppendValue 42, CallAppendTime False])))))) = 11"
proof -
  let ?cs = "[CallAppendTime True, CallAppendValue 42, CallAppendTime False]"
  have h1: "\<forall>c \<in> set ?cs. is_Append c" by simp
  have h2: "(2::nat) = length (filter is_AppendTime ?cs)" by simp
  have h3: "(2::nat) mod 65536 \<noteq> 0" by simp
  from header_correctness [OF h1 h2 h3 refl refl, of 10 "NewTSDDecoder []"]
  show ?thesis by simp
qed

text \<open>
  The claim as stated fails at 65536 \<open>AppendTime\<close> calls: the uint16 counter is 0 again, and
  \<open>Bytes()\<close> returns \<open>(nil, nil)\<close>, on which \<open>Reset\<close> sets its error and \<open>EndTime()\<close>
  stays 0.
\<close>

theorem header_correctness_counterexample:
  "fst (Bytes (call_encoder_list (NewTSDEncoder 0) (replicate 65536 (CallAppendTime True))))
     = (None, None)
   \<and> Error (Reset_decoder (NewTSDDecoder []) (slice_bytes None)) = Some ErrBadData
   \<and> EndTime (Reset_decoder (NewTSDDecoder []) (slice_bytes None)) \<noteq> 0 + of_nat 65536 - 1"
proof -
  let ?e = "call_encoder_list (NewTSDEncoder 0) (replicate 65536 (CallAppendTime True))"
  have "e_err ?e = None"
    by (simp add: call_encoder_list_err New_encoder_fields)
  moreover have "e_count ?e = 0"
    using call_encoder_list_count [of "NewTSDEncoder 0" "replicate 65536 (CallAppendTime True)"]
    by (simp add: New_encoder_fields)
  ultimately have "fst (Bytes ?e) = (None, None)"
    by (simp add: Bytes_no_error)
  moreover have "Error (Reset_decoder (NewTSDDecoder []) (slice_bytes None)) = Some ErrBadData"
    by (simp add: slice_bytes_def Reset_decoder_def Error_def)
  moreover have "EndTime (Reset_decoder (NewTSDDecoder []) (slice_bytes None))
                 \<noteq> 0 + of_nat 65536 - 1"
    by (simp add: slice_bytes_def Reset_decoder_def EndTime_def NewTSDDecoder_def)
  ultimately show ?thesis by blast
qed

text \<open>
  C4 (non-empty range invariant), as amended. For every block that \<open>Bytes()\<close> returns for an
  encoder with start slot \<open>startTime\<close> after any calls, \<open>n\<close> of them \<open>AppendTime\<close>, where
  \<open>startTime + n \<le> 65536\<close> (the end slot \<open>startTime + n - 1\<close> does not wrap around): the
  encoded end slot is greater than or equal to the encoded start slot.
\<close>

theorem nonempty_range:
  assumes "fst (Bytes (call_encoder_list (NewTSDEncoder startTime) cs)) = (Some block, None)"
    and "unat startTime + length (filter is_AppendTime cs) \<le> 65536"
  shows "fst (DecodeTSDTime block) \<le> snd (DecodeTSDTime block)"
proof -
  let ?e = "call_encoder_list (NewTSDEncoder startTime) cs"
  let ?n = "length (filter is_AppendTime cs)"
  have err: "e_err ?e = None"
    by (simp add: call_encoder_list_err New_encoder_fields)
  have cnt: "e_count ?e = of_nat ?n"
    using call_encoder_list_count [of "NewTSDEncoder startTime" cs]
    by (simp add: New_encoder_fields)
  have st: "e_startTime ?e = startTime"
    by (simp add: call_encoder_list_startTime New_encoder_fields)
  from assms(1) have nz: "(of_nat ?n :: uint16) \<noteq> 0"
    and blk: "block = PutUInt16 startTime @ PutUInt16 (startTime + of_nat ?n - 1)
                        @ fst (fst (Flush (e_bitBuffer ?e, e_bitWriter ?e)))"
    by (auto simp: Bytes_no_error [OF err] cnt st split: if_splits)
  from nz have pos: "0 < ?n" by (cases "?n") simp_all
  have "unat (startTime + of_nat ?n - 1) = unat startTime + ?n - 1"
    using pos assms(2) by (rule unat_end_slot)
  with pos have "unat startTime \<le> unat (startTime + of_nat ?n - 1)"
    by arith
  then have "startTime \<le> startTime + of_nat ?n - 1"
    by (simp only: word_le_nat_alt)
  then show ?thesis
    by (simp add: blk DecodeTSDTime_block)
qed

theorem nonempty_range_witness:
  "fst (DecodeTSDTime [10, 0, 11, 0, 128]) \<le> snd (DecodeTSDTime [10, 0, 11, 0, 128])"
proof -
  have h1: "fst (Bytes (call_encoder_list (NewTSDEncoder 10)
                    [CallAppendTime True, CallAppendTime False]))
            = (Some [10, 0, 11, 0, 128], None)"
    by code_simp
  have h2: "unat (10 :: uint16)
              + length (filter is_AppendTime [CallAppendTime True, CallAppendTime False])
            \<le> 65536"
    by simp
  from nonempty_range [OF h1 h2] show ?thesis .
qed

text \<open>
  The claim as stated (for every start slot and every number of calls) fails where the end
  slot wraps around: start slot 65535 and two \<open>AppendTime\<close> calls give the end slot 0.
\<close>

theorem nonempty_range_counterexample:
  "(case fst (Bytes (call_encoder_list (NewTSDEncoder 65535)
                       [CallAppendTime True, CallAppendTime False])) of
      (Some block, None) \<Rightarrow> snd (DecodeTSDTime block) < fst (DecodeTSDTime block)
    | _ \<Rightarrow> False)"
  by code_simp

text \<open>
  C5 (decoder short-block rejection), as amended. For every byte sequence of length at most
  4, \<open>Reset\<close> sets the error (\<open>Error()\<close> returns it) and changes no other field of the
  decoder; the error stays non-nil through every sequence of \<open>Next()\<close>, \<open>HasValue()\<close> and
  \<open>Value()\<close> calls; on a decoder whose reader is nil \<open>HasValue()\<close> returns false, and
  where the XOR decoder is nil \<open>Value()\<close> returns 0, both without any effect; a later
  \<open>Reset\<close> with more than 4 bytes clears the error.
\<close>

theorem short_block_rejection:
  assumes "length data \<le> 4"
  shows "Reset_decoder d data = d\<lparr>d_err := Some ErrBadData\<rparr>
         \<and> Error (Reset_decoder d data) = Some ErrBadData
         \<and> Error (foldl call_decoder (Reset_decoder d data) cs) \<noteq> None
         \<and> (d_reader d = None \<longrightarrow>
               HasValue (Reset_decoder d data) = (False, Reset_decoder d data))
         \<and> (d_values d = None \<longrightarrow>
               Value (Reset_decoder d data) = (0, Reset_decoder d data))
         \<and> (4 < length data' \<longrightarrow> Error (Reset_decoder (Reset_decoder d data) data') = None)"
proof -
  have r: "Reset_decoder d data = d\<lparr>d_err := Some ErrBadData\<rparr>"
    using assms by (simp add: Reset_decoder_def)
  have "d_err (foldl call_decoder (d\<lparr>d_err := Some ErrBadData\<rparr>) cs) \<noteq> None"
    by (rule call_decoder_list_err) simp
  then show ?thesis
    using assms
    by (simp add: r Error_def HasValue_def Value_def Reset_decoder_def reset_decoder_def)
qed

theorem short_block_rejection_witness:
  "Error (Reset_decoder (NewTSDDecoder []) [1, 2, 3]) = Some ErrBadData
   \<and> Error (foldl call_decoder (Reset_decoder (NewTSDDecoder []) [1, 2, 3])
        [CallNext, CallHasValue, CallValue]) \<noteq> None
   \<and> HasValue (Reset_decoder (NewTSDDecoder []) [1, 2, 3])
       = (False, Reset_decoder (NewTSDDecoder []) [1, 2, 3])
   \<and> Value (Reset_decoder (NewTSDDecoder []) [1, 2, 3])
       = (0, Reset_decoder (NewTSDDecoder []) [1, 2, 3])
   \<and> Error (Reset_decoder (Reset_decoder (NewTSDDecoder []) [1, 2, 3]) [10, 0, 11, 0, 128])
       = None"
proof -
  have h: "length [1, 2, 3 :: byte] \<le> 4" by simp
  have r: "d_reader (NewTSDDecoder []) = None" and v: "d_values (NewTSDDecoder []) = None"
    by (simp_all add: NewTSDDecoder_def)
  have l: "4 < length [10, 0, 11, 0, 128 :: byte]" by simp
  from short_block_rejection [OF h, of "NewTSDDecoder []"
      "[CallNext, CallHasValue, CallValue]" "[10, 0, 11, 0, 128]"] r v l
  show ?thesis by blast
qed

text \<open>
  The claim as stated fails for \<open>Next()\<close>, and for \<open>HasValue()\<close> on a decoder that was used
  before: a new decoder has start and end slot 0, so after \<open>Reset\<close> on an empty slice
  \<open>Next()\<close> still returns true once; a decoder that holds an earlier block still reads
  that block's bits after \<open>Reset\<close> on three bytes.
\<close>

theorem short_block_rejection_counterexample:
  "fst (Next (Reset_decoder (NewTSDDecoder []) [])) = True
   \<and> fst (HasValue (Reset_decoder (NewTSDDecoder [10, 0, 11, 0, 128]) [1, 2, 3])) = True"
  by code_simp

text \<open>
  C6 (encoder sticky error): once an error has latched in the encoder, every later
  \<open>AppendTime\<close> and \<open>AppendValue\<close> call leaves the encoder as it is (count, buffers and
  the error itself), and \<open>Bytes()\<close> and \<open>BytesWithoutTime()\<close> return \<open>(nil, err)\<close> with
  the latched error.
\<close>

theorem encoder_sticky_error:
  assumes "e_err e = Some er" and "\<forall>c \<in> set cs. is_Append c"
  shows "call_encoder_list e cs = e
         \<and> Bytes (call_encoder_list e cs) = ((None, Some er), e)
         \<and> BytesWithoutTime (call_encoder_list e cs) = ((None, Some er), e)"
proof -
  have same: "call_encoder_list e cs = e"
    using assms unfolding call_encoder_list_def
    by (induction cs) (simp_all add: sticky_call)
  show ?thesis
    using assms(1) by (simp add: same Bytes_def BytesWithoutTime_def)
qed

theorem encoder_sticky_error_witness:
  "e_err ((NewTSDEncoder 3)\<lparr>e_err := Some ErrWrite\<rparr>) = Some ErrWrite
   \<and> call_encoder_list ((NewTSDEncoder 3)\<lparr>e_err := Some ErrWrite\<rparr>)
        [CallAppendTime True, CallAppendValue 5] = (NewTSDEncoder 3)\<lparr>e_err := Some ErrWrite\<rparr>
   \<and> Bytes (call_encoder_list ((NewTSDEncoder 3)\<lparr>e_err := Some ErrWrite\<rparr>)
        [CallAppendTime True, CallAppendValue 5])
       = ((None, Some ErrWrite), (NewTSDEncoder 3)\<lparr>e_err := Some ErrWrite\<rparr>)"
proof -
  have h1: "e_err ((NewTSDEncoder 3)\<lparr>e_err := Some ErrWrite\<rparr>) = Some ErrWrite"
    by simp
  have h2: "\<forall>c \<in> set [CallAppendTime True, CallAppendValue 5]. is_Append c"
    by simp
  from h1 encoder_sticky_error [OF h1 h2] show ?thesis by blast
qed



section \<open>The claims on the memory database\<close>




text \<open>
  C8 (no rollback after a failed field write). When a field write of a point fails, the
  writes before it having succeeded, \<open>WriteWithoutLock\<close> returns the error of that write
  and leaves the database as the failed write left it: nothing is written after it, and
  the series store is the one that the writes before it have filled. And whenever
  \<open>WriteWithoutLock\<close> returns an error \<open>e\<close>, the field write at some position \<open>k\<close> has
  failed: its field store does not exist and the page allocation for it returned \<open>e\<close> (one
  more allocation failure is counted); exactly the \<open>k\<close> writes before it were made, in
  order, and their points are in their field stores in the database that the call leaves
  behind.
\<close>

theorem write_failure_no_rollback:
  assumes "r = WriteWithoutLock sz md p" and "plan = point_plan p"
  shows "(\<forall>k ck e c'.
            k < length plan
            \<and> run_plan sz p (take k plan) (begin_write sz md p) = (Done, ck)
            \<and> write_field sz p (fst (plan ! k)) (snd (plan ! k)) ck = (Failed e, c') \<longrightarrow>
            r = (Failed e, store_back p c') \<and> md_writes (snd r) = md_writes (w_md ck)
            \<and> w_tStore c' = w_tStore ck)
         \<and> (\<forall>e. fst r = Failed e \<longrightarrow>
               (\<exists>k < length plan.
                  md_writes (snd r) = md_writes md @ with_ids (FieldIDs p) 0 (take k plan)
                  \<and> md_allocatedPageFailures (snd r) = md_allocatedPageFailures md + 1
                  \<and> (e = ErrAllocPage \<or> Some e \<in> set (md_buf md))
                  \<and> k < length (FieldIDs p)
                  \<and> (\<exists>ms ts. bucket_Get (md_mStores (snd r)) (MetricID p) = Some ms
                         \<and> ms_tStores ms (SeriesID p) = Some ts
                         \<and> ts (FieldIDs p ! k) = None
                         \<and> (\<forall>i < k. \<exists>fs. ts (FieldIDs p ! i) = Some fs
                                \<and> (fst (plan ! i), SlotIndex p, snd (plan ! i)) \<in> set fs))))"
proof (intro conjI allI impI)
  fix k ck e c'
  assume h: "k < length plan
            \<and> run_plan sz p (take k plan) (begin_write sz md p) = (Done, ck)
            \<and> write_field sz p (fst (plan ! k)) (snd (plan ! k)) ck = (Failed e, c')"
  then have k: "k < length (point_plan p)"
    and run: "run_plan sz p (take k (point_plan p)) (begin_write sz md p) = (Done, ck)"
    and w: "write_field sz p (fst (point_plan p ! k)) (snd (point_plan p ! k)) ck
            = (Failed e, c')"
    by (simp_all add: assms(2))
  note ret = write_failure_returned [OF k run w]
  show "r = (Failed e, store_back p c')"
    by (simp add: assms(1) ret(1))
  show "md_writes (snd r) = md_writes (w_md ck)"
    by (simp add: assms(1) ret(1,2))
  show "w_tStore c' = w_tStore ck"
    by (rule ret(3))
next
  fix e
  assume "fst r = Failed e"
  then have "fst (WriteWithoutLock sz md p) = Failed e"
    by (simp add: assms(1))
  from write_failure_state [OF this, of "snd r"]
  show "\<exists>k < length plan.
                  md_writes (snd r) = md_writes md @ with_ids (FieldIDs p) 0 (take k plan)
                  \<and> md_allocatedPageFailures (snd r) = md_allocatedPageFailures md + 1
                  \<and> (e = ErrAllocPage \<or> Some e \<in> set (md_buf md))
                  \<and> k < length (FieldIDs p)
                  \<and> (\<exists>ms ts. bucket_Get (md_mStores (snd r)) (MetricID p) = Some ms
                         \<and> ms_tStores ms (SeriesID p) = Some ts
                         \<and> ts (FieldIDs p ! k) = None
                         \<and> (\<forall>i < k. \<exists>fs. ts (FieldIDs p ! i) = Some fs
                                \<and> (fst (plan ! i), SlotIndex p, snd (plan ! i)) \<in> set fs))"
    by (simp add: assms)
qed

theorem write_failure_no_rollback_witness:
  "fst (WriteWithoutLock unit_sizes (NewMemoryDatabase [None, None, None]) histogram_point)
     = Failed ErrAllocPage
   \<and> md_writes (snd (WriteWithoutLock unit_sizes (NewMemoryDatabase [None, None, None])
                     histogram_point))
     = [(11, MinField, 1), (12, MinField, 9), (13, SumField, 20)]
   \<and> md_allocatedPageFailures
        (snd (WriteWithoutLock unit_sizes (NewMemoryDatabase [None, None, None])
                histogram_point))
     = md_allocatedPageFailures (NewMemoryDatabase [None, None, None]) + 1"
  using write_failure_no_rollback [where sz = unit_sizes
      and md = "NewMemoryDatabase [None, None, None]" and p = histogram_point, OF refl refl]
    histogram_point_fails histogram_point_fails_writes
  by blast

text \<open>
  C9 (flush commits all or nothing). \<open>FlushFamilyTo\<close> flushes the metric stores in the
  order of the bucket store. When the flush of every metric succeeds it then calls
  \<open>Commit()\<close>, once and after the last metric, and returns its result. When the flush of
  a metric fails, it returns that error; the metrics after it are not flushed and
  \<open>Commit()\<close> is not called.
\<close>

theorem flush_all_or_nothing:
  assumes "keys = map fst (md_mStores md)"
  shows "((\<forall>k \<in> set keys. fl_flush_error fl k = None) \<longrightarrow>
            FlushFamilyTo md fl
              = (fl_commit_error fl,
                 fl\<lparr>fl_calls := fl_calls fl @ map CallFlushMetrics keys @ [CallCommit]\<rparr>))
         \<and> (\<forall>ks k ks' e.
               keys = ks @ k # ks' \<and> (\<forall>j \<in> set ks. fl_flush_error fl j = None)
               \<and> fl_flush_error fl k = Some e \<longrightarrow>
               FlushFamilyTo md fl
                 = (Some e, fl\<lparr>fl_calls := fl_calls fl @ map CallFlushMetrics (ks @ [k])\<rparr>))"
proof (intro conjI allI impI)
  assume "\<forall>k \<in> set keys. fl_flush_error fl k = None"
  then have "\<forall>k \<in> set (map fst (md_mStores md)). fl_flush_error fl k = None"
    by (simp add: assms)
  from walk_all_flushed [OF this] show "FlushFamilyTo md fl
              = (fl_commit_error fl,
                 fl\<lparr>fl_calls := fl_calls fl @ map CallFlushMetrics keys @ [CallCommit]\<rparr>)"
    by (simp add: FlushFamilyTo_def Commit_def assms)
next
  fix ks k ks' e
  assume h: "keys = ks @ k # ks' \<and> (\<forall>j \<in> set ks. fl_flush_error fl j = None)
               \<and> fl_flush_error fl k = Some e"
  then have "map fst (md_mStores md) = ks @ k # ks'"
    by (simp add: assms)
  from walk_first_failure [OF this] h
  show "FlushFamilyTo md fl
          = (Some e, fl\<lparr>fl_calls := fl_calls fl @ map CallFlushMetrics (ks @ [k])\<rparr>)"
    by (simp add: FlushFamilyTo_def)
qed

theorem flush_all_or_nothing_witness:
  "FlushFamilyTo
     ((NewMemoryDatabase [])\<lparr>md_mStores :=
        [(1, newMetricStore), (2, newMetricStore), (3, newMetricStore)]\<rparr>)
     \<lparr>fl_calls = [], fl_flush_error = (\<lambda>k. None), fl_commit_error = None\<rparr>
   = (None,
      \<lparr>fl_calls = [CallFlushMetrics 1, CallFlushMetrics 2, CallFlushMetrics 3, CallCommit],
       fl_flush_error = (\<lambda>k. None), fl_commit_error = None\<rparr>)
   \<and> FlushFamilyTo
     ((NewMemoryDatabase [])\<lparr>md_mStores :=
        [(1, newMetricStore), (2, newMetricStore), (3, newMetricStore)]\<rparr>)
     \<lparr>fl_calls = [], fl_flush_error = (\<lambda>k. if k = 2 then Some (ErrFlush 2) else None),
      fl_commit_error = None\<rparr>
   = (Some (ErrFlush 2),
      \<lparr>fl_calls = [CallFlushMetrics 1, CallFlushMetrics 2],
       fl_flush_error = (\<lambda>k. if k = 2 then Some (ErrFlush 2) else None),
       fl_commit_error = None\<rparr>)"
proof -
  let ?md = "(NewMemoryDatabase [])\<lparr>md_mStores :=
        [(1, newMetricStore), (2, newMetricStore), (3, newMetricStore)]\<rparr>"
  let ?ok = "\<lparr>fl_calls = [], fl_flush_error = (\<lambda>k. None), fl_commit_error = None\<rparr>"
  let ?bad = "\<lparr>fl_calls = [], fl_flush_error = (\<lambda>k. if k = 2 then Some (ErrFlush 2) else None),
      fl_commit_error = None\<rparr>"
  have keys: "[1, 2, 3] = map fst (md_mStores ?md)" by simp
  have "\<forall>k \<in> set [1, 2, 3 :: nat]. fl_flush_error ?ok k = None" by simp
  with flush_all_or_nothing [OF keys, of ?ok]
  have a: "FlushFamilyTo ?md ?ok
           = (fl_commit_error ?ok,
              ?ok\<lparr>fl_calls := fl_calls ?ok
                      @ map CallFlushMetrics [1, 2, 3] @ [CallCommit]\<rparr>)"
    by blast
  have "[1, 2, 3 :: nat] = [1] @ 2 # [3] \<and> (\<forall>j \<in> set [1 :: nat]. fl_flush_error ?bad j = None)
        \<and> fl_flush_error ?bad 2 = Some (ErrFlush 2)"
    by simp
  with flush_all_or_nothing [OF keys, of ?bad]
  have b: "FlushFamilyTo ?md ?bad
           = (Some (ErrFlush 2),
              ?bad\<lparr>fl_calls := fl_calls ?bad @ map CallFlushMetrics ([1] @ [2])\<rparr>)"
    by blast
  from a b show ?thesis by simp
qed

end
